theory Spec2Isabelle
  imports Main "HOL-Library.Word"
begin

unbundle bit_operations_syntax

section \<open>The picoboot backend of avrdude (picoboot.c)\<close>

subsection \<open>Data\<close>

type_synonym byte = "8 word"
type_synonym uint16 = "16 word"
type_synonym uint = "32 word"

text \<open>\<^verbatim>\<open>struct frame\<close>: four bytes, in this order in memory and on the wire.\<close>

record frame =
  data_lo :: byte
  data_hi :: byte
  check :: byte
  command :: byte

definition MAX_FRAMES :: nat where
  "MAX_FRAMES = 8"

definition BOOTLOADER_SIZE :: int where
  "BOOTLOADER_SIZE = 66"

definition sizeof_frame :: nat where
  "sizeof_frame = 4"

definition frame_bytes :: "frame \<Rightarrow> byte list" where
  "frame_bytes f = [data_lo f, data_hi f, check f, command f]"

text \<open>
  The fields of \<^verbatim>\<open>AVRMEM\<close> that picoboot.c uses: the memory class name, the size
  (a C \<^verbatim>\<open>int\<close>) and the image buffer of unsigned bytes.
\<close>

record avrmem =
  desc :: string
  size_m :: int
  buf :: "byte list"

text \<open>
  The three calls of \<^verbatim>\<open>exit(1)\<close>, told apart by the diagnostic each prints, and
  the ways a call can end. \<open>Fault\<close> is an access to \<^verbatim>\<open>m->buf\<close> outside the buffer,
  which C leaves undefined.
\<close>

datatype fatal = ProtocolError | BootloaderWrite | NoResetVector

datatype 'a outcome = Return 'a | Exit fatal | Fault

subsection \<open>The transport\<close>

text \<open>
  Modelled from the spec: \<^verbatim>\<open>serial_send\<close> and \<^verbatim>\<open>serial_recv\<close> (serial.h) are not
  part of the sources at hand. The spec gives the contract: a blocking send of bytes
  and a blocking receive of exactly \<open>n\<close> bytes that either delivers them or fails
  (time-out). A receive of one byte is all picoboot.c needs. The device's future
  answers are a script; when it is used up the device is silent and the receive
  fails. Every call is recorded, in order, in the trace.
\<close>

datatype recv_result = RecvFail | RecvByte byte

datatype event = Sent "byte list" | Recvd recv_result

text \<open>
  The world outside one call: the transport's trace and script, and the two static
  variables of \<^verbatim>\<open>picoboot_buffered_send\<close>, kept as the bytes between \<^verbatim>\<open>buf\<close> and
  \<^verbatim>\<open>bufp\<close>. The program starts with \<^verbatim>\<open>bufp = buf\<close>, the empty window; from there
  the window always holds whole frames, fewer than \<open>MAX_FRAMES\<close> between calls, so
  the copy into \<^verbatim>\<open>buf\<close> stays inside it.
\<close>

record world =
  trace :: "event list"
  incoming :: "recv_result list"
  window :: "byte list"

definition serial_send :: "byte list \<Rightarrow> world \<Rightarrow> world" where
  "serial_send bs w = w\<lparr>trace := trace w @ [Sent bs]\<rparr>"

definition serial_recv :: "world \<Rightarrow> recv_result \<times> world" where
  "serial_recv w =
     (case incoming w of
        [] \<Rightarrow> (RecvFail, w\<lparr>trace := trace w @ [Recvd RecvFail]\<rparr>)
      | r # rs \<Rightarrow> (r, w\<lparr>trace := trace w @ [Recvd r], incoming := rs\<rparr>))"

subsection \<open>Frames and acknowledgements\<close>

definition set_check :: "frame \<Rightarrow> frame" where
  "set_check f = f\<lparr>check := data_lo f XOR data_hi f XOR command f\<rparr>"

definition picoboot_send_frame :: "frame \<Rightarrow> world \<Rightarrow> world" where
  "picoboot_send_frame f w = serial_send (frame_bytes (set_check f)) w"

definition picoboot_wait_ack :: "world \<Rightarrow> int outcome \<times> world" where
  "picoboot_wait_ack w =
     (case serial_recv w of
        (RecvFail, w') \<Rightarrow> (Return (- 1), w')
      | (RecvByte resp, w') \<Rightarrow>
          if resp \<noteq> 0 then (Exit ProtocolError, w') else (Return 0, w'))"

text \<open>
  The loop \<^verbatim>\<open>for (ack_count = MAX_FRAMES; ack_count--;)\<close> of
  \<^verbatim>\<open>picoboot_buffered_send\<close>, by the number of rounds still to run.
\<close>

fun ack_loop :: "nat \<Rightarrow> world \<Rightarrow> int outcome \<times> world" where
  "ack_loop 0 w = (Return 0, w)"
| "ack_loop (Suc ack_count) w =
     (case picoboot_wait_ack w of
        (Return r, w') \<Rightarrow> if r \<noteq> 0 then (Return (- 1), w') else ack_loop ack_count w'
      | (out, w') \<Rightarrow> (out, w'))"

definition picoboot_buffered_send :: "frame \<Rightarrow> world \<Rightarrow> int outcome \<times> world" where
  "picoboot_buffered_send f w =
     (let w1 = w\<lparr>window := window w @ frame_bytes (set_check f)\<rparr>
      in if length (window w1) = MAX_FRAMES * sizeof_frame
         then ack_loop MAX_FRAMES ((serial_send (window w1) w1)\<lparr>window := []\<rparr>)
         else (Return 0, w1))"

subsection \<open>The paged write\<close>

text \<open>
  The local \<^verbatim>\<open>struct frame f\<close> of \<^verbatim>\<open>picoboot_paged_write\<close> is shared by its nested
  functions. Each of them assigns \<open>data_lo\<close>, \<open>data_hi\<close> and \<open>command\<close> before it
  sends, and the send recomputes \<open>check\<close>, so no byte of an earlier use is ever sent:
  the model builds the frame afresh, with the byte \<open>check\<close> at zero before the send
  sets it.
\<close>

text \<open>The body of the loop of \<^verbatim>\<open>fill_page_buf\<close>, for one value of \<^verbatim>\<open>cur_addr\<close>.
  The results of both buffered sends are dropped, as in the source.\<close>

definition fill_word :: "byte list \<Rightarrow> uint16 \<Rightarrow> world \<Rightarrow> int outcome \<times> world" where
  "fill_word b cur_addr w =
     (if unat cur_addr + 1 < length b then
        (case picoboot_buffered_send
                \<lparr>data_lo = b ! unat cur_addr, data_hi = b ! (unat cur_addr + 1),
                 check = 0, command = 0\<rparr> w of
           (Return _, w1) \<Rightarrow>
             (case picoboot_buffered_send
                     \<lparr>data_lo = ucast (cur_addr AND 0xff),
                      data_hi = ucast (drop_bit 8 (cur_addr AND 0xff00)),
                      check = 0, command = 0x01\<rparr> w1 of
                (Return _, w2) \<Rightarrow> (Return 0, w2)
              | (out, w2) \<Rightarrow> (out, w2))
         | (out, w1) \<Rightarrow> (out, w1))
      else (Fault, w))"

text \<open>
  The loop of \<^verbatim>\<open>fill_page_buf\<close>. \<^verbatim>\<open>cur_addr\<close> is 16 bits wide and wraps; the bound
  \<^verbatim>\<open>page_addr + page_size\<close> is computed in \<^verbatim>\<open>unsigned int\<close>. The loop need not end.
\<close>

partial_function (option) fill_loop ::
  "byte list \<Rightarrow> uint \<Rightarrow> uint16 \<Rightarrow> uint16 \<Rightarrow> world \<Rightarrow> (int outcome \<times> world) option" where
  "fill_loop b page_size page_addr cur_addr w =
     (if (ucast cur_addr :: uint) < ucast page_addr + page_size then
        (case fill_word b cur_addr w of
           (Return _, w') \<Rightarrow> fill_loop b page_size page_addr (cur_addr + 2) w'
         | (out, w') \<Rightarrow> Some (out, w'))
      else Some (Return 0, w))"

declare fill_loop.simps [code]

definition fill_page_buf ::
  "byte list \<Rightarrow> uint \<Rightarrow> uint16 \<Rightarrow> world \<Rightarrow> (int outcome \<times> world) option" where
  "fill_page_buf b page_size page_addr w = fill_loop b page_size page_addr page_addr w"

definition erase_page :: "uint \<Rightarrow> world \<Rightarrow> int outcome \<times> world" where
  "erase_page page_addr w =
     (case picoboot_wait_ack
             (picoboot_send_frame
                \<lparr>data_lo = ucast (page_addr AND 0xff),
                 data_hi = ucast (drop_bit 8 (page_addr AND 0xff00)),
                 check = 0, command = 0x03\<rparr> w) of
        (Return r, w') \<Rightarrow> if r \<noteq> 0 then (Return (- 1), w') else (Return 0, w')
      | (out, w') \<Rightarrow> (out, w'))"

definition write_page :: "uint \<Rightarrow> world \<Rightarrow> int outcome \<times> world" where
  "write_page page_addr w =
     (case picoboot_wait_ack
             (picoboot_send_frame
                \<lparr>data_lo = ucast (page_addr AND 0xff),
                 data_hi = ucast (drop_bit 8 (page_addr AND 0xff00)),
                 check = 0, command = 0x05\<rparr> w) of
        (Return r, w') \<Rightarrow> if r \<noteq> 0 then (Return (- 1), w') else (Return 0, w')
      | (out, w') \<Rightarrow> (out, w'))"

text \<open>\<^verbatim>\<open>if (step != 0) return -1;\<close> followed by the rest of the function.\<close>

definition or_fail ::
  "(int outcome \<times> world) option \<Rightarrow> (world \<Rightarrow> (int outcome \<times> world) option) \<Rightarrow>
   (int outcome \<times> world) option" where
  "or_fail step rest =
     (case step of
        None \<Rightarrow> None
      | Some (Return r, w) \<Rightarrow> if r \<noteq> 0 then Some (Return (- 1), w) else rest w
      | Some (out, w) \<Rightarrow> Some (out, w))"

text \<open>Fill, erase and write of one page, as written out twice in the source.\<close>

definition page_steps ::
  "byte list \<Rightarrow> uint \<Rightarrow> uint16 \<Rightarrow> uint \<Rightarrow> world \<Rightarrow>
   (world \<Rightarrow> (int outcome \<times> world) option) \<Rightarrow> (int outcome \<times> world) option" where
  "page_steps b page_size fill_addr page_addr w rest =
     or_fail (fill_page_buf b page_size fill_addr w) (\<lambda>w1.
     or_fail (Some (erase_page page_addr w1)) (\<lambda>w2.
     or_fail (Some (write_page page_addr w2)) rest))"

definition with_mem :: "avrmem \<Rightarrow> (int outcome \<times> world) option \<Rightarrow>
   (int outcome \<times> world \<times> avrmem) option" where
  "with_mem m r = map_option (\<lambda>(out, w). (out, w, m)) r"

definition picoboot_paged_write ::
  "avrmem \<Rightarrow> uint \<Rightarrow> uint \<Rightarrow> uint \<Rightarrow> world \<Rightarrow> (int outcome \<times> world \<times> avrmem) option" where
  "picoboot_paged_write m page_size addr num_bytes w =
     (let vrst_vec_addr = (word_of_int (size_m m - BOOTLOADER_SIZE) :: uint16) in
      if desc m \<noteq> ''flash'' then Some (Return (- 1), w, m)
      else if ucast vrst_vec_addr \<le> addr then Some (Exit BootloaderWrite, w, m)
      else if ucast vrst_vec_addr - page_size < addr then Some (Return (sint num_bytes), w, m)
      else if addr = 0 then
        (let vrst_vec_page = (ucast (ucast vrst_vec_addr - page_size + 2 :: uint) :: uint16) in
         if length (buf m) < 2 then Some (Fault, w, m)
         else
           let appstart = (ucast (buf m ! 0) OR push_bit 8 (ucast (buf m ! 1)) :: uint16) in
           if appstart AND 0xF000 \<noteq> 0xC000 then Some (Exit NoResetVector, w, m)
           else
             let b1 = (buf m)[0 := 0xdf, 1 := 0xcf];
                 appstart' = (0xc000 OR (((appstart AND 0x0FFF) + 33) AND 0x0FFF) :: uint16)
             in if length b1 \<le> unat vrst_vec_addr + 1 then Some (Fault, w, m\<lparr>buf := b1\<rparr>)
                else
                  let b2 = b1[unat vrst_vec_addr := ucast (appstart' AND 0x00FF),
                              unat vrst_vec_addr + 1 := ucast (drop_bit 8 appstart')]
                  in with_mem (m\<lparr>buf := b2\<rparr>)
                       (page_steps b2 page_size vrst_vec_page (ucast vrst_vec_page) w (\<lambda>w1.
                        page_steps b2 page_size (ucast addr) addr w1 (\<lambda>w2.
                        Some (Return (sint num_bytes), w2)))))
      else with_mem m
             (page_steps (buf m) page_size (ucast addr) addr w (\<lambda>w2.
              Some (Return (sint num_bytes), w2))))"

subsection \<open>Notions used to state the properties\<close>

text \<open>A frame with its checksum, as the send functions put it on the wire.\<close>

definition make_frame :: "byte \<Rightarrow> byte \<Rightarrow> byte \<Rightarrow> frame" where
  "make_frame lo hi cmd = \<lparr>data_lo = lo, data_hi = hi, check = lo XOR hi XOR cmd, command = cmd\<rparr>"

definition wire :: "frame \<Rightarrow> byte list" where
  "wire f = frame_bytes (set_check f)"

text \<open>
  A sequence of calls of \<^verbatim>\<open>picoboot_buffered_send\<close> by a caller that, like
  \<^verbatim>\<open>fill_page_buf\<close>, does not look at the results; only \<^verbatim>\<open>exit\<close> stops it.
\<close>

fun send_seq :: "frame list \<Rightarrow> world \<Rightarrow> int outcome \<times> world" where
  "send_seq [] w = (Return 0, w)"
| "send_seq (f # fs) w =
     (case picoboot_buffered_send f w of
        (Return _, w') \<Rightarrow> send_seq fs w'
      | (out, w') \<Rightarrow> (out, w'))"

text \<open>
  The two frames for the 16-bit word at byte address \<open>a\<close> of the image: the data
  frame (command 0x00) with the two bytes, then the fill-buffer frame (command 0x01)
  with the address \<open>a\<close> itself, low byte first. \<open>fill_frames b a n\<close> are the frames
  of \<open>n\<close> consecutive words from address \<open>a\<close> on.
\<close>

definition word_frames :: "byte list \<Rightarrow> nat \<Rightarrow> frame list" where
  "word_frames b a =
     [make_frame (b ! a) (b ! (a + 1)) 0x00,
      make_frame (of_nat a) (of_nat (a div 256)) 0x01]"

definition fill_frames :: "byte list \<Rightarrow> nat \<Rightarrow> nat \<Rightarrow> frame list" where
  "fill_frames b a n = concat (map (\<lambda>k. word_frames b (a + 2 * k)) [0..<n])"

text \<open>The same pair of frames with the offset of the word inside its page as payload.\<close>

definition word_frames_offset :: "byte list \<Rightarrow> nat \<Rightarrow> nat \<Rightarrow> frame list" where
  "word_frames_offset b page_addr off =
     [make_frame (b ! (page_addr + off)) (b ! (page_addr + off + 1)) 0x00,
      make_frame (of_nat off) (of_nat (off div 256)) 0x01]"

definition fill_frames_offset :: "byte list \<Rightarrow> nat \<Rightarrow> nat \<Rightarrow> frame list" where
  "fill_frames_offset b page_addr n =
     concat (map (\<lambda>k. word_frames_offset b page_addr (2 * k)) [0..<n])"

definition erase_frame :: "nat \<Rightarrow> frame" where
  "erase_frame a = make_frame (of_nat a) (of_nat (a div 256)) 0x03"

definition write_frame :: "nat \<Rightarrow> frame" where
  "write_frame a = make_frame (of_nat a) (of_nat (a div 256)) 0x05"

text \<open>All frames of one page, in the order fill, erase, write.\<close>

definition page_frames :: "byte list \<Rightarrow> nat \<Rightarrow> nat \<Rightarrow> frame list" where
  "page_frames b a page_size =
     fill_frames b a (page_size div 2) @ [erase_frame a, write_frame a]"

text \<open>A successful acknowledgement read, and a script that starts with \<open>k\<close> of them.\<close>

definition ack_ok :: event where
  "ack_ok = Recvd (RecvByte 0)"

definition good_acks :: "nat \<Rightarrow> world \<Rightarrow> bool" where
  "good_acks k w = (take k (incoming w) = replicate k (RecvByte 0))"

text \<open>
  What a run of buffered frames puts on the transport when every acknowledgement is
  good: for each full group of \<open>MAX_FRAMES\<close> frames one send of the whole group,
  then \<open>MAX_FRAMES\<close> reads. The frames after the last full group stay in the window.
\<close>

function flush_events :: "frame list \<Rightarrow> event list" where
  "flush_events fs =
     (if length fs < MAX_FRAMES then []
      else (Sent (concat (map wire (take MAX_FRAMES fs))) # replicate MAX_FRAMES ack_ok)
           @ flush_events (drop MAX_FRAMES fs))"
  by pat_completeness auto
termination
  by (relation "measure length") (auto simp: MAX_FRAMES_def)

declare flush_events.simps [simp del]

text \<open>
  The transport events of one page when every acknowledgement is good and the fill
  frames come in full windows: the flushes of the fill frames, then the erase frame
  and its acknowledgement, then the write frame and its acknowledgement.
\<close>

definition page_events :: "byte list \<Rightarrow> nat \<Rightarrow> nat \<Rightarrow> event list" where
  "page_events b a page_size =
     flush_events (fill_frames b a (page_size div 2)) @
     [Sent (wire (erase_frame a)), ack_ok, Sent (wire (write_frame a)), ack_ok]"

definition leftover :: "frame list \<Rightarrow> frame list" where
  "leftover fs = drop (MAX_FRAMES * (length fs div MAX_FRAMES)) fs"

text \<open>All bytes sent in a trace, in order.\<close>

fun sent_bytes :: "event list \<Rightarrow> byte list" where
  "sent_bytes [] = []"
| "sent_bytes (Sent bs # es) = bs @ sent_bytes es"
| "sent_bytes (Recvd r # es) = sent_bytes es"

text \<open>
  Frames sent and not yet acknowledged at the end of a trace: every four bytes sent
  are one frame more, every acknowledgement byte received one less.
\<close>

fun outstanding :: "event list \<Rightarrow> int" where
  "outstanding [] = 0"
| "outstanding (Sent bs # es) = int (length bs div 4) + outstanding es"
| "outstanding (Recvd (RecvByte v) # es) = outstanding es - 1"
| "outstanding (Recvd RecvFail # es) = outstanding es"

text \<open>
  The two ways an acknowledgement read fails: nothing arrives, or a byte other than
  0x00 arrives.
\<close>

definition bad_byte :: "event \<Rightarrow> bool" where
  "bad_byte e = (case e of Recvd (RecvByte v) \<Rightarrow> v \<noteq> 0 | _ \<Rightarrow> False)"

definition timed_out :: "event \<Rightarrow> bool" where
  "timed_out e = (case e of Recvd RecvFail \<Rightarrow> True | _ \<Rightarrow> False)"

text \<open>
  The events and the result of one flush: either every read is good and the result
  is 0, or the one failed read is the last event, with -1 after a time-out and the
  exit after a bad byte.
\<close>

definition flush_stops :: "int outcome \<Rightarrow> event list \<Rightarrow> bool" where
  "flush_stops out evs =
     ((out = Return 0 \<and> (\<forall>x\<in>set evs. \<not> timed_out x \<and> \<not> bad_byte x)) \<or>
      (\<exists>pre e. evs = pre @ [e] \<and> (\<forall>x\<in>set pre. \<not> timed_out x \<and> \<not> bad_byte x) \<and>
         (timed_out e \<and> out = Return (- 1) \<or> bad_byte e \<and> out = Exit ProtocolError)))"

text \<open>
  The same for bad bytes alone, and for any stretch of a call: the call ends in the
  protocol-error exit exactly when a bad byte was read, and that read is then its last
  event. \<open>extends w out w'\<close>: the trace of \<open>w'\<close> is the trace of \<open>w\<close> with such
  events added.
\<close>

definition bad_stops :: "int outcome \<Rightarrow> event list \<Rightarrow> bool" where
  "bad_stops out evs =
     (if out = Exit ProtocolError
      then \<exists>pre e. evs = pre @ [e] \<and> bad_byte e \<and> (\<forall>x\<in>set pre. \<not> bad_byte x)
      else \<forall>x\<in>set evs. \<not> bad_byte x)"

definition extends :: "world \<Rightarrow> int outcome \<Rightarrow> world \<Rightarrow> bool" where
  "extends w out w' = (\<exists>evs. trace w' = trace w @ evs \<and> bad_stops out evs)"

text \<open>The 16-bit little-endian value of the two bytes at offset \<open>i\<close>.\<close>

definition le16 :: "byte list \<Rightarrow> nat \<Rightarrow> nat" where
  "le16 b i = unat (b ! i) + 256 * unat (b ! (i + 1))"

text \<open>
  The image after the reset vector has been redirected: the fixed jump to the
  bootloader in bytes 0 and 1, and at offset \<open>v\<close> the jump opcode bits 0xC000 merged
  with the old 12-bit target plus 33, modulo 4096, low byte first.
\<close>

definition relocated :: "byte list \<Rightarrow> nat \<Rightarrow> byte list" where
  "relocated b v =
     (let V = 0xC000 + (le16 b 0 mod 4096 + 33) mod 4096
      in b[0 := 0xdf, 1 := 0xcf, v := of_nat (V mod 256), v + 1 := of_nat (V div 256)])"

text \<open>
  The wire format written out: the four bytes of a frame in the order low data byte,
  high data byte, checksum, command; the transport events of a run of checksummed
  frames that fills whole windows of eight, each window one send of its 32 bytes
  followed by eight reads of 0x00; and the events of one page: the bursts of its fill
  frames, then the erase frame and its acknowledgement, then the write frame and its
  acknowledgement.
\<close>

definition octets :: "frame \<Rightarrow> byte list" where
  "octets f = [data_lo f, data_hi f, check f, command f]"

function burst_events :: "frame list \<Rightarrow> event list" where
  "burst_events fs =
     (if length fs < 8 then []
      else (Sent (concat (map octets (take 8 fs))) # replicate 8 (Recvd (RecvByte 0)))
           @ burst_events (drop 8 fs))"
  by pat_completeness auto
termination
  by (relation "measure length") auto

declare burst_events.simps [simp del]

definition page_trace :: "byte list \<Rightarrow> nat \<Rightarrow> nat \<Rightarrow> event list" where
  "page_trace b a page_size =
     burst_events (fill_frames b a (page_size div 2)) @
     [Sent (octets (erase_frame a)), Recvd (RecvByte 0),
      Sent (octets (write_frame a)), Recvd (RecvByte 0)]"

text \<open>The trace a paged write leaves behind; empty if the call does not return.\<close>

definition trace_of :: "(int outcome \<times> world \<times> avrmem) option \<Rightarrow> event list" where
  "trace_of r = (case r of None \<Rightarrow> [] | Some (out, w, m) \<Rightarrow> trace w)"

text \<open>
  A flash image as the data model has it: memory class flash, at least the reserved
  66 bytes, addressable with 16 bits, and the buffer holds \<open>size\<close> bytes.
\<close>

definition flash_image :: "avrmem \<Rightarrow> bool" where
  "flash_image m =
     (desc m = ''flash'' \<and> 66 \<le> size_m m \<and> size_m m \<le> 65536 \<and>
      int (length (buf m)) = size_m m)"

subsection \<open>Example inputs\<close>

text \<open>
  A 128-byte flash whose reset vector is \<^verbatim>\<open>rjmp\<close> with target offset 0x00F, the rest
  erased; with \<open>size - 66 = 62\<close> and 16-byte pages the page at 48 holds the virtual
  reset vector. The same image named \<open>eeprom\<close>, and one that starts with erased
  bytes. A world with an empty window whose device answers \<open>k\<close> good
  acknowledgements and then falls silent.
\<close>

definition tiny_image :: avrmem where
  "tiny_image = \<lparr>desc = ''flash'', size_m = 128, buf = [0x0F, 0xC0] @ replicate 126 0xFF\<rparr>"

definition tiny_eeprom :: avrmem where
  "tiny_eeprom = tiny_image\<lparr>desc := ''eeprom''\<rparr>"

definition blank_image :: avrmem where
  "blank_image = \<lparr>desc = ''flash'', size_m = 128, buf = replicate 128 0xFF\<rparr>"

definition quiet_world :: "nat \<Rightarrow> world" where
  "quiet_world k = \<lparr>trace = [], incoming = replicate k (RecvByte 0), window = []\<rparr>"

text \<open>Eight frames told apart by their low data byte, and a ninth.\<close>

definition eight_frames :: "frame list" where
  "eight_frames = map (\<lambda>k. make_frame (of_nat k) 0 0) [0..<8]"

definition nine_frames :: "frame list" where
  "nine_frames = eight_frames @ [make_frame 8 0 0]"

text \<open>
  A device that answers the first acknowledgement read with 0xFF; one whose first
  answer never arrives and whose next seventeen are good; and a world with seven frames
  in the window whose device acknowledges once and then falls silent.
\<close>

definition nak_world :: world where
  "nak_world = \<lparr>trace = [], incoming = [RecvByte 0xFF], window = []\<rparr>"

definition late_world :: world where
  "late_world = \<lparr>trace = [], incoming = RecvFail # replicate 17 (RecvByte 0), window = []\<rparr>"

definition seven_pending :: world where
  "seven_pending =
     \<lparr>trace = [], incoming = [RecvByte 0], window = concat (map wire (take 7 eight_frames))\<rparr>"

section \<open>Auxiliary facts\<close>

subsection \<open>Words\<close>

lemma unat_ucast_16_32: "unat (ucast (x::uint16) :: uint) = unat x"
proof -
  have "unat x < 2 ^ 16" using unsigned_less [of x] by simp
  then have "unat x < 2 ^ 32" by simp
  then show ?thesis by (simp add: unsigned_ucast_eq take_bit_nat_eq_self)
qed

lemma unat_ucast_8_16: "unat (ucast (x::byte) :: uint16) = unat x"
proof -
  have "unat x < 2 ^ 8" using unsigned_less [of x] by simp
  then have "unat x < 2 ^ 16" by simp
  then show ?thesis by (simp add: unsigned_ucast_eq take_bit_nat_eq_self)
qed

lemma mask_ff_16: "(0xff :: uint16) = mask 8"
  by (simp add: mask_eq_exp_minus_1)

lemma mask_ff00_16: "(0xff00 :: uint16) = push_bit 8 (mask 8)"
  by (simp add: mask_eq_exp_minus_1)

lemma mask_fff_16: "(0x0FFF :: uint16) = mask 12"
  by (simp add: mask_eq_exp_minus_1)

lemma c000_16: "(0xc000 :: uint16) = push_bit 14 (mask 2)"
  by (simp add: mask_eq_exp_minus_1)

lemma mask_f000_16: "(0xF000 :: uint16) = push_bit 12 (mask 4)"
  by (simp add: mask_eq_exp_minus_1)

lemma lo_byte_16: "(ucast ((cur::uint16) AND 0xff) :: byte) = of_nat (unat cur)"
proof -
  have "(ucast (cur AND 0xff) :: byte) = ucast cur"
    unfolding mask_ff_16 by (rule bit_word_eqI) (auto simp: bit_simps)
  then show ?thesis by simp
qed

lemma hi_byte_16:
  "(ucast (drop_bit 8 ((cur::uint16) AND 0xff00)) :: byte) = of_nat (unat cur div 256)"
proof -
  have "(ucast (drop_bit 8 (cur AND 0xff00)) :: byte) = ucast (drop_bit 8 cur)"
    unfolding mask_ff00_16 by (rule bit_word_eqI) (auto simp: bit_simps)
  moreover have "unat (drop_bit 8 cur) = unat cur div 256"
    by (simp add: unat_drop_bit_eq drop_bit_eq_div unat_div)
  moreover have "(ucast (drop_bit 8 cur) :: byte) = of_nat (unat (drop_bit 8 cur))"
    by simp
  ultimately show ?thesis by simp
qed

lemma unat_le16_word:
  "unat (ucast (b0::byte) OR push_bit 8 (ucast (b1::byte)) :: uint16) = unat b0 + 256 * unat b1"
proof -
  have "(ucast b0 + push_bit 8 (ucast b1) :: uint16) = ucast b0 OR push_bit 8 (ucast b1)"
    by (rule disjunctive_add_eq_or)
       (rule bit_word_eqI, auto simp: bit_simps dest: bit_imp_le_length)
  moreover have "unat b0 < 256" "unat b1 < 256"
    using unsigned_less [of b0] unsigned_less [of b1] by simp_all
  moreover have "unat (push_bit 8 (ucast b1) :: uint16) = 256 * unat b1"
    using \<open>unat b1 < 256\<close> by (simp add: push_bit_eq_mult unat_word_ariths unat_ucast_8_16)
  ultimately show ?thesis
    using unat_add_lem [of "ucast b0 :: uint16" "push_bit 8 (ucast b1)"]
    by (simp add: unat_ucast_8_16)
qed

lemma unat_and_fff: "unat ((x::uint16) AND 0x0FFF) = unat x mod 4096"
  unfolding mask_fff_16
  by (simp add: take_bit_eq_mask [symmetric] unsigned_take_bit_eq take_bit_eq_mod unat_mod)

lemma unat_and_f000: "unat ((x::uint16) AND 0xF000) = (unat x div 4096) * 4096"
proof -
  have "x AND 0xF000 = push_bit 12 (drop_bit 12 x)"
    unfolding mask_f000_16 by (rule bit_word_eqI) (auto simp: bit_simps)
  moreover have "unat (drop_bit 12 x) = unat x div 4096"
    by (simp add: unat_drop_bit_eq drop_bit_eq_div unat_div)
  moreover have "unat x < 65536" using unsigned_less [of x] by simp
  ultimately show ?thesis
    by (simp add: push_bit_eq_mult unat_word_ariths unat_div)
qed

lemma rjmp_test: "((x::uint16) AND 0xF000 = 0xC000) = (unat x div 4096 = 12)"
proof -
  have "(x AND 0xF000 = 0xC000) = (unat (x AND 0xF000) = unat (0xC000 :: uint16))"
    by (simp only: word_unat_eq_iff)
  then show ?thesis by (simp add: unat_and_f000)
qed

lemma unat_new_rjmp:
  "unat (0xc000 OR (((x AND 0x0FFF) + 33) AND 0x0FFF) :: uint16) =
   49152 + (unat x mod 4096 + 33) mod 4096"
proof -
  let ?y = "((x AND 0x0FFF) + 33) AND 0x0FFF"
  have "unat x mod 4096 < 4096" by simp
  then have "(unat x mod 4096 + 33) mod 65536 = unat x mod 4096 + 33"
    by (intro mod_less) linarith
  then have "unat ((x AND 0x0FFF) + 33) = unat x mod 4096 + 33"
    by (simp add: unat_word_ariths unat_and_fff)
  then have y: "unat ?y = (unat x mod 4096 + 33) mod 4096"
    by (simp only: unat_and_fff)
  have "(0xc000 + ?y :: uint16) = 0xc000 OR ?y"
    unfolding mask_fff_16 c000_16
    by (rule disjunctive_add_eq_or) (rule bit_word_eqI, auto simp: bit_simps)
  moreover have "(unat x mod 4096 + 33) mod 4096 < 4096" by simp
  then have "(unat x mod 4096 + 33) mod 4096 < 16384" by linarith
  ultimately show ?thesis
    using unat_add_lem [of "0xc000 :: uint16" ?y] y by simp
qed

lemma unat_lo_of_16: "unat (ucast ((v::uint16) AND 0xFF) :: byte) = unat v mod 256"
  unfolding mask_ff_16
  by (simp add: unsigned_ucast_eq take_bit_eq_mask [symmetric] unsigned_take_bit_eq
      take_bit_eq_mod unat_mod)

lemma unat_hi_of_16: "unat (ucast (drop_bit 8 (v::uint16)) :: byte) = unat v div 256"
proof -
  have "unat v < 65536" using unsigned_less [of v] by simp
  then have "unat v div 256 < 256" by simp
  moreover have "unat (drop_bit 8 v) = unat v div 256"
    by (simp add: unat_drop_bit_eq drop_bit_eq_div unat_div)
  ultimately show ?thesis
    by (simp only: unsigned_ucast_eq take_bit_eq_mod) simp
qed

lemma loop_cond_nat:
  fixes cur pa :: uint16 and ps :: uint
  assumes "unat pa + unat ps < 2 ^ 32"
  shows "((ucast cur :: uint) < ucast pa + ps) = (unat cur < unat pa + unat ps)"
proof -
  have "unat (ucast pa + ps :: uint) = unat pa + unat ps"
    using assms unat_add_lem [of "ucast pa :: uint" ps] by (simp add: unat_ucast_16_32)
  then show ?thesis
    by (simp add: word_less_nat_alt unat_ucast_16_32)
qed

subsection \<open>The fill loop is a sequence of buffered sends\<close>

lemma fill_frames_0: "fill_frames b a 0 = []"
  by (simp add: fill_frames_def)

lemma fill_frames_Suc: "fill_frames b a (Suc n) = word_frames b a @ fill_frames b (a + 2) n"
proof -
  have "[0..<Suc n] = 0 # map Suc [0..<n]"
    by (simp add: upt_conv_Cons map_Suc_upt del: upt_Suc)
  then show ?thesis
    by (simp add: fill_frames_def comp_def del: upt_Suc)
qed

lemma buffered_send_check:
  "picoboot_buffered_send \<lparr>data_lo = lo, data_hi = hi, check = c, command = cmd\<rparr> w =
   picoboot_buffered_send (make_frame lo hi cmd) w"
  by (simp add: picoboot_buffered_send_def set_check_def make_frame_def)

lemma fill_word_send_seq:
  assumes "unat cur + 1 < length b"
  shows "fill_word b cur w = send_seq (word_frames b (unat cur)) w"
  unfolding fill_word_def lo_byte_16 hi_byte_16 buffered_send_check
  using assms
  by (simp add: word_frames_def split: prod.splits outcome.splits)

lemma send_seq_append:
  "send_seq (fs @ gs) w =
     (case send_seq fs w of (Return _, w') \<Rightarrow> send_seq gs w' | (out, w') \<Rightarrow> (out, w'))"
  by (induction fs arbitrary: w) (auto split: prod.splits outcome.splits)

lemma fill_loop_send_seq:
  assumes "unat pa + unat ps < 2 ^ 32"
    and "unat cur + 2 * n \<le> 65535"
    and "unat cur + 2 * n \<le> length b"
    and "unat pa + unat ps \<le> unat cur + 2 * n"
    and "n = 0 \<or> unat cur + 2 * (n - 1) < unat pa + unat ps"
  shows "fill_loop b ps pa cur w = Some (send_seq (fill_frames b (unat cur) n) w)"
  using assms(2-5)
proof (induction n arbitrary: cur w)
  case 0
  then have "\<not> unat cur < unat pa + unat ps" by simp
  then show ?case
    by (subst fill_loop.simps) (simp add: loop_cond_nat [OF assms(1)] fill_frames_0)
next
  case (Suc n)
  have lt: "unat cur < unat pa + unat ps" using Suc.prems(4) by simp
  have rd: "unat cur + 1 < length b" using Suc.prems(2) by simp
  have nx: "unat (cur + 2) = unat cur + 2"
    using Suc.prems(1) unat_add_lem [of cur 2] by simp
  have ih: "fill_loop b ps pa (cur + 2) w' =
      Some (send_seq (fill_frames b (unat cur + 2) n) w')" for w'
    using Suc.IH [of "cur + 2" w'] Suc.prems nx by (cases n) auto
  show ?case
    by (subst fill_loop.simps)
       (simp add: loop_cond_nat [OF assms(1)] lt fill_word_send_seq [OF rd] fill_frames_Suc
          send_seq_append ih split: prod.splits outcome.splits)
qed

lemma fill_page_buf_send_seq:
  assumes "unat pa + 2 * ((unat ps + 1) div 2) \<le> 65535"
    and "unat pa + 2 * ((unat ps + 1) div 2) \<le> length b"
  shows "fill_page_buf b ps pa w =
     Some (send_seq (fill_frames b (unat pa) ((unat ps + 1) div 2)) w)"
proof -
  have "unat pa + unat ps < 2 ^ 32" using assms(1) by simp
  moreover have "unat pa + unat ps \<le> unat pa + 2 * ((unat ps + 1) div 2)" by simp
  moreover have "(unat ps + 1) div 2 = 0 \<or>
      unat pa + 2 * ((unat ps + 1) div 2 - 1) < unat pa + unat ps"
    by (cases "unat ps") auto
  ultimately show ?thesis
    unfolding fill_page_buf_def using assms by (intro fill_loop_send_seq)
qed

subsection \<open>Buffered sends when every acknowledgement is good\<close>

lemma good_acks_Suc:
  assumes "good_acks (Suc k) w"
  obtains rs where "incoming w = RecvByte 0 # rs" and "take k rs = replicate k (RecvByte 0)"
  using assms by (cases "incoming w") (auto simp: good_acks_def)

lemma good_acks_split:
  assumes "good_acks (a + b) w"
  shows "good_acks a w" and "take b (drop a (incoming w)) = replicate b (RecvByte 0)"
proof -
  have t: "take (a + b) (incoming w) = replicate (a + b) (RecvByte 0)"
    using assms by (simp add: good_acks_def)
  have "take a (incoming w) = take a (take (a + b) (incoming w))"
    by simp
  also have "\<dots> = replicate a (RecvByte 0)"
    by (simp only: t) simp
  finally show "good_acks a w" by (simp add: good_acks_def)
  have "take b (drop a (incoming w)) = drop a (take (a + b) (incoming w))"
    by (simp add: drop_take)
  also have "\<dots> = replicate b (RecvByte 0)"
    by (simp only: t) simp
  finally show "take b (drop a (incoming w)) = replicate b (RecvByte 0)" .
qed

lemma ack_loop_good:
  assumes "good_acks n w"
  shows "ack_loop n w =
     (Return 0, w\<lparr>trace := trace w @ replicate n ack_ok, incoming := drop n (incoming w)\<rparr>)"
  using assms
proof (induction n arbitrary: w)
  case 0
  then show ?case by simp
next
  case (Suc n)
  from Suc.prems obtain rs where rs: "incoming w = RecvByte 0 # rs"
    and tk: "take n rs = replicate n (RecvByte 0)"
    by (rule good_acks_Suc)
  let ?w1 = "w\<lparr>trace := trace w @ [ack_ok], incoming := rs\<rparr>"
  have step: "picoboot_wait_ack w = (Return 0, ?w1)"
    by (simp add: picoboot_wait_ack_def serial_recv_def rs ack_ok_def)
  have "good_acks n ?w1" using tk by (simp add: good_acks_def)
  then have "ack_loop n ?w1 =
     (Return 0, ?w1\<lparr>trace := trace ?w1 @ replicate n ack_ok, incoming := drop n (incoming ?w1)\<rparr>)"
    by (rule Suc.IH)
  then show ?case
    by (simp add: step rs replicate_append_same [symmetric] del: replicate_append_same)
qed

lemma length_wire: "length (wire f) = 4"
  by (simp add: wire_def frame_bytes_def)

lemma length_concat_wire: "length (concat (map wire fs)) = 4 * length fs"
  by (induction fs) (simp_all add: length_wire)

lemma buffered_send_keep:
  assumes "window w = concat (map wire pend)" and "length pend < 7"
  shows "picoboot_buffered_send f w = (Return 0, w\<lparr>window := concat (map wire (pend @ [f]))\<rparr>)"
  using assms
  by (simp add: picoboot_buffered_send_def Let_def MAX_FRAMES_def sizeof_frame_def
      length_concat_wire length_wire wire_def [symmetric])

lemma buffered_send_flush:
  assumes "window w = concat (map wire pend)" and "length pend = 7" and "good_acks 8 w"
  shows "picoboot_buffered_send f w =
     (Return 0, w\<lparr>trace := trace w @ Sent (concat (map wire (pend @ [f]))) # replicate 8 ack_ok,
                  incoming := drop 8 (incoming w), window := []\<rparr>)"
proof -
  let ?w2 = "(serial_send (window w @ wire f) (w\<lparr>window := window w @ wire f\<rparr>))\<lparr>window := []\<rparr>"
  have "good_acks 8 ?w2" using assms(3) by (simp add: good_acks_def serial_send_def)
  then have "ack_loop 8 ?w2 =
     (Return 0, ?w2\<lparr>trace := trace ?w2 @ replicate 8 ack_ok, incoming := drop 8 (incoming ?w2)\<rparr>)"
    by (rule ack_loop_good)
  then show ?thesis
    using assms(1,2)
    by (simp add: picoboot_buffered_send_def Let_def MAX_FRAMES_def sizeof_frame_def
        length_concat_wire length_wire wire_def [symmetric] serial_send_def)
qed

lemma buffered_send_window_bound:
  assumes "length (window w) mod 4 = 0" and "length (window w) < 32"
  shows "length (window (snd (picoboot_buffered_send f w))) mod 4 = 0 \<and>
     length (window (snd (picoboot_buffered_send f w))) < 32"
proof (cases "length (window w) = 28")
  case True
  let ?bs = "window w @ frame_bytes (set_check f)"
  let ?w2 = "(serial_send ?bs (w\<lparr>window := ?bs\<rparr>))\<lparr>window := []\<rparr>"
  have "window (snd (ack_loop n w')) = window w'" for n w'
  proof (induction n arbitrary: w')
    case 0
    then show ?case by simp
  next
    case (Suc n)
    then show ?case
      by (cases "incoming w'")
         (auto simp: picoboot_wait_ack_def serial_recv_def split: recv_result.splits)
  qed
  then have "window (snd (ack_loop MAX_FRAMES ?w2)) = []" by simp
  then show ?thesis
    using True
    by (simp add: picoboot_buffered_send_def Let_def MAX_FRAMES_def sizeof_frame_def
        frame_bytes_def)
next
  case False
  then have "length (window w) + 4 < 32" using assms by presburger
  then show ?thesis
    using assms(1)
    by (simp add: picoboot_buffered_send_def Let_def MAX_FRAMES_def sizeof_frame_def
        frame_bytes_def)
qed

lemma flush_events_short: "length fs < 8 \<Longrightarrow> flush_events fs = []"
  by (subst flush_events.simps) (simp add: MAX_FRAMES_def)

lemma flush_events_full:
  "length pend = 7 \<Longrightarrow>
   flush_events (pend @ f # fs) =
     (Sent (concat (map wire (pend @ [f]))) # replicate 8 ack_ok) @ flush_events fs"
  by (subst flush_events.simps) (simp add: MAX_FRAMES_def)

lemma div8_shift: "8 * ((8 + n) div 8) = 8 + 8 * (n div (8::nat))"
  by presburger

lemma leftover_short: "length fs < 8 \<Longrightarrow> leftover fs = fs"
  by (simp add: leftover_def MAX_FRAMES_def)

lemma leftover_full: "length pend = 7 \<Longrightarrow> leftover (pend @ f # fs) = leftover fs"
  by (simp add: leftover_def MAX_FRAMES_def div8_shift)

lemma send_seq_good:
  assumes "window w = concat (map wire pend)" and "length pend < 8"
    and "good_acks (8 * ((length pend + length fs) div 8)) w"
  shows "send_seq fs w =
     (Return 0, w\<lparr>trace := trace w @ flush_events (pend @ fs),
                  incoming := drop (8 * ((length pend + length fs) div 8)) (incoming w),
                  window := concat (map wire (leftover (pend @ fs)))\<rparr>)"
  using assms
proof (induction fs arbitrary: pend w)
  case Nil
  then show ?case by (simp add: flush_events_short leftover_short)
next
  case (Cons f fs)
  show ?case
  proof (cases "length pend < 7")
    case True
    let ?w1 = "w\<lparr>window := concat (map wire (pend @ [f]))\<rparr>"
    have step: "picoboot_buffered_send f w = (Return 0, ?w1)"
      using Cons.prems(1) True by (rule buffered_send_keep)
    have "send_seq fs ?w1 =
     (Return 0, ?w1\<lparr>trace := trace ?w1 @ flush_events ((pend @ [f]) @ fs),
                  incoming := drop (8 * ((length (pend @ [f]) + length fs) div 8)) (incoming ?w1),
                  window := concat (map wire (leftover ((pend @ [f]) @ fs)))\<rparr>)"
      using True Cons.prems(3) by (intro Cons.IH) (simp_all add: good_acks_def)
    then show ?thesis by (simp add: step)
  next
    case False
    then have len: "length pend = 7" using Cons.prems(2) by simp
    have k: "8 * ((length pend + length (f # fs)) div 8) = 8 + 8 * (length fs div 8)"
      by (simp add: len div8_shift)
    have g8: "good_acks 8 w"
      using Cons.prems(3) unfolding k by (rule good_acks_split(1))
    let ?w1 = "w\<lparr>trace := trace w @ Sent (concat (map wire (pend @ [f]))) # replicate 8 ack_ok,
                  incoming := drop 8 (incoming w), window := []\<rparr>"
    have step: "picoboot_buffered_send f w = (Return 0, ?w1)"
      using Cons.prems(1) len g8 by (rule buffered_send_flush)
    have g': "good_acks (8 * ((length ([]::frame list) + length fs) div 8)) ?w1"
      using good_acks_split(2) [OF Cons.prems(3) [unfolded k]] by (simp add: good_acks_def)
    have "send_seq fs ?w1 =
     (Return 0, ?w1\<lparr>trace := trace ?w1 @ flush_events ([] @ fs),
                  incoming := drop (8 * ((length ([]::frame list) + length fs) div 8)) (incoming ?w1),
                  window := concat (map wire (leftover ([] @ fs)))\<rparr>)"
      using g' by (intro Cons.IH) simp_all
    then show ?thesis
      unfolding k add.commute [of 8]
      by (simp add: step flush_events_full [OF len] leftover_full [OF len])
  qed
qed

subsection \<open>Frames in flight\<close>

lemma outstanding_append: "outstanding (xs @ ys) = outstanding xs + outstanding ys"
  by (induction xs rule: outstanding.induct) simp_all

lemma outstanding_acks: "outstanding (replicate j ack_ok) = - int j"
  by (induction j) (simp_all add: ack_ok_def)

lemma outstanding_take_group:
  assumes "length bs = 32"
  shows "outstanding (take n (Sent bs # replicate 8 ack_ok)) \<le> 8"
    and "9 \<le> n \<Longrightarrow> outstanding (take n (Sent bs # replicate 8 ack_ok)) = 0"
proof -
  show "outstanding (take n (Sent bs # replicate 8 ack_ok)) \<le> 8"
    using assms by (cases n) (simp_all add: outstanding_acks)
  show "9 \<le> n \<Longrightarrow> outstanding (take n (Sent bs # replicate 8 ack_ok)) = 0"
    using assms by (cases n) (simp_all add: outstanding_acks min_def)
qed

lemma outstanding_flush_events: "outstanding (take n (flush_events fs)) \<le> 8"
proof (induction fs arbitrary: n rule: flush_events.induct)
  case (1 fs)
  show ?case
  proof (cases "length fs < 8")
    case True
    then show ?thesis by (simp add: flush_events_short)
  next
    case False
    let ?g = "Sent (concat (map wire (take 8 fs))) # replicate 8 ack_ok"
    have fe: "flush_events fs = ?g @ flush_events (drop 8 fs)"
      using False by (subst flush_events.simps) (simp add: MAX_FRAMES_def)
    have len: "length (concat (map wire (take 8 fs))) = 32"
      using False by (simp add: length_concat_wire)
    have ih: "outstanding (take k (flush_events (drop 8 fs))) \<le> 8" for k
      using "1.IH" [of k] False by (simp add: MAX_FRAMES_def)
    have gl: "length ?g = 9" by simp
    have split: "outstanding (take n (flush_events fs)) =
        outstanding (take n ?g) + outstanding (take (n - 9) (flush_events (drop 8 fs)))"
      by (simp only: fe take_append gl outstanding_append)
    show ?thesis
    proof (cases "9 \<le> n")
      case True
      then show ?thesis
        using ih [of "n - 9"] outstanding_take_group(2) [OF len True]
        by (simp only: split)
    next
      case False
      then have "take (n - 9) (flush_events (drop 8 fs)) = []" by simp
      then show ?thesis
        using outstanding_take_group(1) [OF len, of n]
        by (simp only: split) simp
    qed
  qed
qed

lemma length_leftover: "length (leftover fs) < 8"
  by (simp add: leftover_def MAX_FRAMES_def)

subsection \<open>The address of the virtual reset vector\<close>

lemma uint_vrst_le:
  assumes "66 \<le> s"
  shows "uint (ucast (word_of_int (s - 66) :: uint16) :: uint) \<le> s - 66"
proof -
  have "uint (ucast (word_of_int (s - 66) :: uint16) :: uint) =
      uint (word_of_int (s - 66) :: uint16)"
    by (simp add: uint_up_ucast is_up)
  also have "\<dots> = (s - 66) mod 65536"
    by (simp only: uint_word_of_int_eq take_bit_eq_mod) simp
  also have "\<dots> \<le> s - 66"
    using assms by (intro zmod_le_nonneg_dividend) simp
  finally show ?thesis .
qed

lemma uint_vrst_exact:
  assumes "66 \<le> s" and "s \<le> 65536"
  shows "uint (ucast (word_of_int (s - 66) :: uint16) :: uint) = s - 66"
proof -
  have "uint (ucast (word_of_int (s - 66) :: uint16) :: uint) =
      uint (word_of_int (s - 66) :: uint16)"
    by (simp add: uint_up_ucast is_up)
  also have "\<dots> = (s - 66) mod 65536"
    by (simp only: uint_word_of_int_eq take_bit_eq_mod) simp
  also have "\<dots> = s - 66"
    using assms by simp
  finally show ?thesis .
qed

lemma unat_vrst_exact:
  assumes "66 \<le> s" and "s \<le> 65536"
  shows "unat (word_of_int (s - 66) :: uint16) = nat (s - 66)"
proof -
  have "uint (word_of_int (s - 66) :: uint16) = (s - 66) mod 65536"
    by (simp only: uint_word_of_int_eq take_bit_eq_mod) simp
  also have "\<dots> = s - 66"
    using assms by simp
  finally show ?thesis by (simp add: unat_eq_nat_uint)
qed

section \<open>The properties\<close>

text \<open>
  C1. A paged write to flash whose start address is at or beyond \<open>size - 66\<close> ends in
  the fatal exit for a write to bootloader memory. The world is the one the call
  started in, so nothing was sent or received, and the image is untouched; page size,
  byte count and image contents are arbitrary. The image is a flash with room for the
  reserved 66 bytes.
\<close>

theorem bootloader_write_is_fatal:
  assumes "desc m = ''flash''" and "66 \<le> size_m m" and "size_m m - 66 \<le> uint addr"
  shows "picoboot_paged_write m page_size addr num_bytes w = Some (Exit BootloaderWrite, w, m)"
proof -
  have "uint (ucast (word_of_int (size_m m - 66) :: uint16) :: uint) \<le> uint addr"
    using uint_vrst_le [OF assms(2)] assms(3) by linarith
  then have "(ucast (word_of_int (size_m m - 66) :: uint16) :: uint) \<le> addr"
    by (simp add: word_le_def)
  then show ?thesis
    using assms(1) by (simp add: picoboot_paged_write_def BOOTLOADER_SIZE_def)
qed

theorem bootloader_write_is_fatal_witness:
  "desc tiny_image = ''flash'' \<and> 66 \<le> size_m tiny_image \<and>
   size_m tiny_image - 66 \<le> uint (62 :: uint) \<and>
   picoboot_paged_write tiny_image 16 62 16 (quiet_world 0) =
     Some (Exit BootloaderWrite, quiet_world 0, tiny_image)"
  using bootloader_write_is_fatal [of tiny_image 62 16 16 "quiet_world 0"]
  by (simp add: tiny_image_def)

text \<open>
  C4. A paged write to flash whose start address lies strictly between
  \<open>size - 66 - page_size\<close> and \<open>size - 66\<close> returns \<open>num_bytes\<close> and leaves the world
  as it was: no frame is sent. The image is addressable with 16 bits and a page is
  not larger than the application area.
\<close>

theorem adjacent_page_is_skipped:
  assumes "desc m = ''flash''" and "66 \<le> size_m m" and "size_m m \<le> 65536"
    and "uint page_size \<le> size_m m - 66"
    and "size_m m - 66 - uint page_size < uint addr" and "uint addr < size_m m - 66"
  shows "picoboot_paged_write m page_size addr num_bytes w =
     Some (Return (sint num_bytes), w, m)"
proof -
  let ?v = "ucast (word_of_int (size_m m - 66) :: uint16) :: uint"
  have v: "uint ?v = size_m m - 66"
    using assms(2,3) by (rule uint_vrst_exact)
  have "\<not> ?v \<le> addr"
    using assms(6) v by (simp add: word_le_def)
  moreover have "uint page_size \<le> uint ?v"
    using assms(4) v by simp
  then have "uint (?v - page_size) = uint ?v - uint page_size"
    by (rule uint_sub_lem [THEN iffD1])
  then have "?v - page_size < addr"
    using assms(5) v by (simp add: word_less_def)
  ultimately show ?thesis
    using assms(1) by (simp add: picoboot_paged_write_def BOOTLOADER_SIZE_def)
qed

theorem adjacent_page_is_skipped_witness:
  "desc tiny_image = ''flash'' \<and> 66 \<le> size_m tiny_image \<and> size_m tiny_image \<le> 65536 \<and>
   uint (16 :: uint) \<le> size_m tiny_image - 66 \<and>
   size_m tiny_image - 66 - uint (16 :: uint) < uint (48 :: uint) \<and>
   uint (48 :: uint) < size_m tiny_image - 66 \<and>
   picoboot_paged_write tiny_image 16 48 16 (quiet_world 0) =
     Some (Return 16, quiet_world 0, tiny_image)"
  using adjacent_page_is_skipped [of tiny_image 16 48 16 "quiet_world 0"]
  by (simp add: tiny_image_def)

text \<open>
  C5. A paged write at address 0 of a flash image whose first two bytes, read as a
  16-bit little-endian word, do not have 0xC in their top four bits ends in the fatal
  exit for a missing reset vector, in the world it started in: no frame was sent.
  Address 0 lies below the reserved region (\<open>66 < size\<close>).
\<close>

theorem missing_reset_vector_is_fatal:
  assumes "desc m = ''flash''" and "66 < size_m m" and "size_m m \<le> 65536"
    and "2 \<le> length (buf m)" and "le16 (buf m) 0 div 4096 \<noteq> 12"
  shows "picoboot_paged_write m page_size 0 num_bytes w = Some (Exit NoResetVector, w, m)"
proof -
  let ?v = "ucast (word_of_int (size_m m - 66) :: uint16) :: uint"
  have "uint ?v = size_m m - 66"
    using assms(2,3) by (intro uint_vrst_exact) simp_all
  then have "uint ?v \<noteq> 0" using assms(2) by simp
  then have v: "?v \<noteq> 0" by (simp add: uint_0_iff)
  let ?a = "ucast (buf m ! 0) OR push_bit 8 (ucast (buf m ! 1)) :: uint16"
  have "unat ?a = le16 (buf m) 0"
    by (simp add: unat_le16_word le16_def)
  then have a: "?a AND 0xF000 \<noteq> 0xC000"
    using assms(5) by (simp only: rjmp_test) simp
  show ?thesis
    using assms(1,4) v a
    by (simp add: picoboot_paged_write_def BOOTLOADER_SIZE_def Let_def)
qed

theorem missing_reset_vector_is_fatal_witness:
  "desc blank_image = ''flash'' \<and> 66 < size_m blank_image \<and> size_m blank_image \<le> 65536 \<and>
   2 \<le> length (buf blank_image) \<and> le16 (buf blank_image) 0 div 4096 \<noteq> 12 \<and>
   picoboot_paged_write blank_image 16 0 16 (quiet_world 0) =
     Some (Exit NoResetVector, quiet_world 0, blank_image)"
  using missing_reset_vector_is_fatal [of blank_image 16 16 "quiet_world 0"]
  by (simp add: blank_image_def le16_def)

text \<open>
  C9. A paged write that names a memory class other than flash returns -1, a normal
  failure and no exit, in the world it started in: nothing was sent or received.
\<close>

theorem other_memory_is_unsupported:
  assumes "desc m \<noteq> ''flash''"
  shows "picoboot_paged_write m page_size addr num_bytes w = Some (Return (- 1), w, m)"
  using assms by (simp add: picoboot_paged_write_def)

theorem other_memory_is_unsupported_witness:
  "desc tiny_eeprom \<noteq> ''flash'' \<and>
   picoboot_paged_write tiny_eeprom 16 0 16 (quiet_world 0) =
     Some (Return (- 1), quiet_world 0, tiny_eeprom)"
  using other_memory_is_unsupported [of tiny_eeprom 16 0 16 "quiet_world 0"]
  by (simp add: tiny_eeprom_def tiny_image_def)

text \<open>
  C7, as the code has it. A run of buffered sends that starts with an empty window and
  meets good acknowledgements only puts nothing on the transport before the eighth
  frame; every eighth frame triggers one flush, which is one send of the eight frames
  of the window as one contiguous block followed by eight acknowledgement reads
  (\<open>flush_events\<close>); the frames after the last full group, fewer than eight, wait in
  the new window; and at no point of the run are more than eight sent frames
  unacknowledged.
\<close>

theorem window_flushes_on_every_eighth_frame:
  assumes "window w = []" and "good_acks (8 * (length fs div 8)) w"
  shows "send_seq fs w =
     (Return 0, w\<lparr>trace := trace w @ flush_events fs,
                  incoming := drop (8 * (length fs div 8)) (incoming w),
                  window := concat (map wire (leftover fs))\<rparr>) \<and>
   length (leftover fs) < MAX_FRAMES \<and>
   (\<forall>n. outstanding (take n (flush_events fs)) \<le> int MAX_FRAMES)"
proof -
  have "window w = concat (map wire [])" using assms(1) by simp
  moreover have "good_acks (8 * ((length ([]::frame list) + length fs) div 8)) w"
    using assms(2) by simp
  ultimately have "send_seq fs w =
     (Return 0, w\<lparr>trace := trace w @ flush_events ([] @ fs),
                  incoming := drop (8 * ((length ([]::frame list) + length fs) div 8)) (incoming w),
                  window := concat (map wire (leftover ([] @ fs)))\<rparr>)"
    by (intro send_seq_good) simp_all
  then show ?thesis
    by (simp add: length_leftover outstanding_flush_events MAX_FRAMES_def)
qed

theorem window_flushes_on_every_eighth_frame_witness:
  "window (quiet_world 8) = [] \<and> good_acks (8 * (length nine_frames div 8)) (quiet_world 8) \<and>
   send_seq nine_frames (quiet_world 8) =
     (Return 0, \<lparr>trace = flush_events nine_frames, incoming = [],
                 window = wire (make_frame 8 0 0)\<rparr>) \<and>
   flush_events nine_frames =
     Sent (concat (map wire eight_frames)) # replicate 8 ack_ok"
proof -
  have l: "length nine_frames = 9"
    by (simp add: nine_frames_def eight_frames_def)
  have h1: "window (quiet_world 8) = []"
    by (simp add: quiet_world_def)
  have h2: "good_acks (8 * (length nine_frames div 8)) (quiet_world 8)"
    by (simp add: l good_acks_def quiet_world_def)
  have lo: "leftover nine_frames = [make_frame 8 0 0]"
    by (simp add: leftover_def MAX_FRAMES_def l) (simp add: nine_frames_def eight_frames_def)
  have "length eight_frames = 7 + 1" by (simp add: eight_frames_def)
  then obtain pend f where pf: "eight_frames = pend @ [f]" and lp: "length pend = 7"
    by (metis length_append_singleton add.commute plus_1_eq_Suc length_Suc_conv_rev)
  have fe: "flush_events nine_frames = Sent (concat (map wire eight_frames)) # replicate 8 ack_ok"
    unfolding nine_frames_def pf
    using flush_events_full [OF lp, of f "[make_frame 8 0 0]"]
    by (simp add: flush_events_short)
  show ?thesis
    using window_flushes_on_every_eighth_frame [OF h1 h2] h1 h2
    by (simp add: l lo fe quiet_world_def)
qed

text \<open>
  C7, as the claim has it, fails: the flush is triggered by the eighth frame itself,
  not by the ninth. After eight frames the trace already holds the send and the eight
  reads, and the ninth frame adds no transport event.
\<close>

theorem ninth_frame_triggers_no_flush_counterexample:
  "trace (snd (send_seq eight_frames (quiet_world 8))) = flush_events eight_frames \<and>
   flush_events eight_frames \<noteq> [] \<and>
   trace (snd (send_seq nine_frames (quiet_world 8))) =
     trace (snd (send_seq eight_frames (quiet_world 8)))"
  by code_simp

text \<open>
  C8, as the code has it. When the page lies inside the image and below the end of the
  16-bit address space, the fill step is the run of buffered sends of
  \<open>fill_frames\<close>: for each 16-bit word of the page, in order, the data frame
  (command 0x00) with the two data bytes, then the fill-buffer frame (command 0x01)
  whose 16-bit payload is the byte address of the word in the image, that is the page
  address plus the offset, low byte first.
\<close>

theorem fill_sends_data_then_address:
  assumes "unat page_addr + 2 * ((unat page_size + 1) div 2) \<le> 65535"
    and "unat page_addr + 2 * ((unat page_size + 1) div 2) \<le> length b"
  shows "fill_page_buf b page_size page_addr w =
     Some (send_seq (fill_frames b (unat page_addr) ((unat page_size + 1) div 2)) w)"
  using assms by (rule fill_page_buf_send_seq)

theorem fill_sends_data_then_address_witness:
  "unat (16 :: uint16) + 2 * ((unat (16 :: uint) + 1) div 2) \<le> 65535 \<and>
   unat (16 :: uint16) + 2 * ((unat (16 :: uint) + 1) div 2) \<le> length (buf tiny_image) \<and>
   fill_page_buf (buf tiny_image) 16 16 (quiet_world 16) =
     Some (send_seq (fill_frames (buf tiny_image) 16 8) (quiet_world 16))"
  using fill_sends_data_then_address [of 16 16 "buf tiny_image" "quiet_world 16"]
  by (simp add: tiny_image_def)

text \<open>
  C8, as the claim has it, fails: for the page at address 16 the fill-buffer frames
  carry 16, 18, ... and not the offsets 0, 2, ... inside the page.
\<close>

theorem fill_payload_is_not_offset_counterexample:
  "fill_page_buf (buf tiny_image) 16 16 (quiet_world 16) \<noteq>
     Some (send_seq (fill_frames_offset (buf tiny_image) 16 8) (quiet_world 16))"
  by code_simp

section \<open>The paged write on a flash image\<close>

lemma hi_byte_16': "(ucast (drop_bit 8 (cur::uint16)) :: byte) = of_nat (unat cur div 256)"
proof -
  have "unat (drop_bit 8 cur) = unat cur div 256"
    by (simp add: unat_drop_bit_eq drop_bit_eq_div unat_div)
  moreover have "(ucast (drop_bit 8 cur) :: byte) = of_nat (unat (drop_bit 8 cur))"
    by simp
  ultimately show ?thesis by simp
qed

lemma lo_byte_16': "(ucast ((cur::uint16) AND 0x00FF) :: byte) = of_nat (unat cur mod 256)"
proof -
  have "unat (of_nat (unat cur mod 256) :: byte) = unat cur mod 256"
    by (simp add: unat_of_nat)
  then have "unat (ucast (cur AND 0x00FF) :: byte) = unat (of_nat (unat cur mod 256) :: byte)"
    by (simp only: unat_lo_of_16)
  then show ?thesis by (simp only: word_unat_eq_iff)
qed

lemma page_steps_Some:
  assumes "unat fa + 2 * ((unat ps + 1) div 2) \<le> 65535"
    and "unat fa + 2 * ((unat ps + 1) div 2) \<le> length b"
    and "\<And>w'. \<exists>r. rest w' = Some r"
  shows "\<exists>r. page_steps b ps fa pa w rest = Some r"
  using assms(3)
  by (simp add: page_steps_def or_fail_def fill_page_buf_send_seq [OF assms(1,2)]
      split: prod.splits outcome.splits)

lemma with_mem_Some:
  assumes "\<exists>r. x = Some r"
  shows "\<exists>out w'. with_mem m x = Some (out, w', m)"
  using assms by (auto simp: with_mem_def)

lemma paged_write_zero:
  assumes "flash_image m" and "66 < size_m m" and "uint page_size \<le> size_m m - 66"
    and "le16 (buf m) 0 div 4096 = 12"
  shows "picoboot_paged_write m page_size 0 num_bytes w =
     with_mem (m\<lparr>buf := relocated (buf m) (nat (size_m m - 66))\<rparr>)
       (page_steps (relocated (buf m) (nat (size_m m - 66))) page_size
          (ucast (ucast (word_of_int (size_m m - 66) :: uint16) - page_size + 2 :: uint))
          (ucast (ucast (ucast (word_of_int (size_m m - 66) :: uint16) - page_size + 2 :: uint) :: uint16))
          w (\<lambda>w1.
        page_steps (relocated (buf m) (nat (size_m m - 66))) page_size (ucast (0 :: uint)) 0 w1 (\<lambda>w2.
        Some (Return (sint num_bytes), w2))))"
proof -
  have fl: "desc m = ''flash''" and s1: "66 \<le> size_m m" and s2: "size_m m \<le> 65536"
    and len: "int (length (buf m)) = size_m m"
    using assms(1) by (simp_all add: flash_image_def)
  let ?vr = "word_of_int (size_m m - 66) :: uint16"
  let ?v = "ucast ?vr :: uint"
  have uv: "unat ?vr = nat (size_m m - 66)"
    using s1 s2 by (rule unat_vrst_exact)
  have "uint ?v = size_m m - 66"
    using s1 s2 by (rule uint_vrst_exact)
  then have "uint ?v \<noteq> 0" using assms(2) by simp
  then have v: "?v \<noteq> 0" by (simp add: uint_0_iff)
  let ?a = "ucast (buf m ! 0) OR push_bit 8 (ucast (buf m ! 1)) :: uint16"
  have ua: "unat ?a = le16 (buf m) 0"
    by (simp add: unat_le16_word le16_def)
  then have a: "?a AND 0xF000 = 0xC000"
    using assms(4) by (simp only: rjmp_test)
  let ?a' = "0xc000 OR (((?a AND 0x0FFF) + 33) AND 0x0FFF) :: uint16"
  have ua': "unat ?a' = 49152 + (le16 (buf m) 0 mod 4096 + 33) mod 4096"
    by (simp only: unat_new_rjmp ua)
  have l2: "\<not> length (buf m) < 2" using len assms(2) by linarith
  have l3: "\<not> length ((buf m)[0 := 0xdf, 1 := 0xcf]) \<le> unat ?vr + 1"
    using len s1 uv by simp
  have b2: "(buf m)[0 := 0xdf, 1 := 0xcf, unat ?vr := ucast (?a' AND 0x00FF),
                   unat ?vr + 1 := ucast (drop_bit 8 ?a')] =
            relocated (buf m) (nat (size_m m - 66))"
    by (simp only: lo_byte_16' hi_byte_16' ua' uv relocated_def Let_def)
  show ?thesis
    unfolding picoboot_paged_write_def Let_def BOOTLOADER_SIZE_def b2
    using fl v a l2 l3 by simp
qed

lemma unat_vrst_page:
  assumes "66 \<le> s" and "s \<le> 65536" and "uint ps \<le> s - 66"
  shows "unat (ucast (ucast (word_of_int (s - 66) :: uint16) - ps + 2 :: uint) :: uint16) =
     nat (s - 66) - unat ps + 2"
proof -
  let ?v = "ucast (word_of_int (s - 66) :: uint16) :: uint"
  have v: "uint ?v = s - 66"
    using assms(1,2) by (rule uint_vrst_exact)
  then have "uint ps \<le> uint ?v" using assms(3) by simp
  then have d: "uint (?v - ps) = s - 66 - uint ps"
    using v by (simp add: uint_sub_lem [THEN iffD1])
  have "s - 66 - uint ps + 2 < 4294967296"
    using assms(2) uint_ge_0 [of ps] by linarith
  then have "uint (?v - ps) + uint (2 :: uint) < 2 ^ LENGTH(32)"
    using d by simp
  then have "uint (?v - ps + 2) = uint (?v - ps) + uint (2 :: uint)"
    by (rule uint_add_lem [THEN iffD1])
  then have u: "uint (?v - ps + 2) = s - 66 - uint ps + 2"
    using d by simp
  have "uint (ucast (?v - ps + 2) :: uint16) = uint (?v - ps + 2) mod 65536"
    by (simp add: unsigned_ucast_eq take_bit_eq_mod)
  also have "\<dots> = s - 66 - uint ps + 2"
    unfolding u using assms uint_ge_0 [of ps] by (intro mod_pos_pos_trivial) linarith+
  finally have "uint (ucast (?v - ps + 2) :: uint16) = s - 66 - uint ps + 2" .
  then show ?thesis
    using assms(1,3) uint_nat [of ps] uint_nat [of "ucast (?v - ps + 2) :: uint16"]
    by linarith
qed

lemma paged_write_zero_Some:
  assumes "flash_image m" and "66 < size_m m" and "uint page_size \<le> size_m m - 66"
    and "le16 (buf m) 0 div 4096 = 12"
  shows "\<exists>out w'. picoboot_paged_write m page_size 0 num_bytes w =
     Some (out, w', m\<lparr>buf := relocated (buf m) (nat (size_m m - 66))\<rparr>)"
proof -
  have s1: "66 \<le> size_m m" and s2: "size_m m \<le> 65536"
    and len: "int (length (buf m)) = size_m m"
    using assms(1) by (simp_all add: flash_image_def)
  let ?b = "relocated (buf m) (nat (size_m m - 66))"
  let ?vp = "ucast (ucast (word_of_int (size_m m - 66) :: uint16) - page_size + 2 :: uint) :: uint16"
  have lb: "length ?b = nat (size_m m)"
    using len by (simp add: relocated_def Let_def)
  have ups: "unat page_size \<le> nat (size_m m - 66)"
    using assms(3) uint_nat [of page_size] by linarith
  have vp: "unat ?vp = nat (size_m m - 66) - unat page_size + 2"
    using s1 s2 assms(3) by (rule unat_vrst_page)
  have half: "2 * ((unat page_size + 1) div 2) \<le> unat page_size + 1"
    by simp
  have c1: "unat ?vp + 2 * ((unat page_size + 1) div 2) \<le> 65535"
    using vp ups half s2 by linarith
  have c2: "unat ?vp + 2 * ((unat page_size + 1) div 2) \<le> length ?b"
    using vp ups half s1 lb by linarith
  have c3: "unat (ucast (0 :: uint) :: uint16) + 2 * ((unat page_size + 1) div 2) \<le> 65535"
    using ups half s2 by simp
  have c4: "unat (ucast (0 :: uint) :: uint16) + 2 * ((unat page_size + 1) div 2) \<le> length ?b"
    using ups half s1 lb by simp
  have inner: "\<exists>r. page_steps ?b page_size (ucast (0 :: uint)) 0 w1 (\<lambda>w2.
        Some (Return (sint num_bytes), w2)) = Some r" for w1
    by (rule page_steps_Some [OF c3 c4]) simp
  have "\<exists>r. page_steps ?b page_size ?vp (ucast ?vp) w (\<lambda>w1.
        page_steps ?b page_size (ucast (0 :: uint)) 0 w1 (\<lambda>w2.
        Some (Return (sint num_bytes), w2))) = Some r"
    by (rule page_steps_Some [OF c1 c2]) (rule inner)
  then show ?thesis
    unfolding paged_write_zero [OF assms] by (rule with_mem_Some)
qed

lemma paged_write_nonzero_Some:
  assumes "flash_image m" and "uint page_size \<le> size_m m - 66" and "addr \<noteq> 0"
  shows "\<exists>out w'. picoboot_paged_write m page_size addr num_bytes w = Some (out, w', m)"
proof -
  have fl: "desc m = ''flash''" and s1: "66 \<le> size_m m" and s2: "size_m m \<le> 65536"
    and len: "int (length (buf m)) = size_m m"
    using assms(1) by (simp_all add: flash_image_def)
  let ?v = "ucast (word_of_int (size_m m - 66) :: uint16) :: uint"
  have v: "uint ?v = size_m m - 66"
    using s1 s2 by (rule uint_vrst_exact)
  show ?thesis
  proof (cases "?v \<le> addr \<or> ?v - page_size < addr")
    case True
    then show ?thesis
      using fl by (auto simp: picoboot_paged_write_def BOOTLOADER_SIZE_def Let_def)
  next
    case False
    then have n1: "\<not> ?v \<le> addr" and n2: "\<not> ?v - page_size < addr" by simp_all
    have "uint page_size \<le> uint ?v" using v assms(2) by simp
    then have "uint (?v - page_size) = size_m m - 66 - uint page_size"
      using v by (simp add: uint_sub_lem [THEN iffD1])
    then have a: "uint addr \<le> size_m m - 66 - uint page_size"
      using n2 by (simp add: word_less_def)
    have "0 \<le> uint page_size" by simp
    then have a16: "uint addr < 65536" using a s2 by linarith
    have "unat addr < 65536"
      using a16 uint_nat [of addr] by linarith
    then have ua: "unat (ucast addr :: uint16) = unat addr"
      by (simp add: unsigned_ucast_eq take_bit_nat_eq_self)
    have sum: "unat addr + unat page_size \<le> nat (size_m m - 66)"
      using a uint_nat [of addr] uint_nat [of page_size] by linarith
    have half: "2 * ((unat page_size + 1) div 2) \<le> unat page_size + 1"
      by simp
    have c1: "unat (ucast addr :: uint16) + 2 * ((unat page_size + 1) div 2) \<le> 65535"
      using ua sum half s2 by linarith
    have c2: "unat (ucast addr :: uint16) + 2 * ((unat page_size + 1) div 2) \<le> length (buf m)"
      using ua sum half s1 len by linarith
    have "\<exists>r. page_steps (buf m) page_size (ucast addr) addr w (\<lambda>w2.
        Some (Return (sint num_bytes), w2)) = Some r"
      by (rule page_steps_Some [OF c1 c2]) simp
    then have "\<exists>out w'. with_mem m (page_steps (buf m) page_size (ucast addr) addr w (\<lambda>w2.
        Some (Return (sint num_bytes), w2))) = Some (out, w', m)"
      by (rule with_mem_Some)
    then show ?thesis
      using fl n1 n2 assms(3) by (simp add: picoboot_paged_write_def BOOTLOADER_SIZE_def Let_def)
  qed
qed

lemma relocated_length: "length (relocated b v) = length b"
  by (simp add: relocated_def Let_def)

lemma relocated_head:
  assumes "2 \<le> v" and "2 \<le> length b"
  shows "relocated b v ! 0 = 0xdf" and "relocated b v ! 1 = 0xcf"
proof -
  have "0 < length b" and "1 < length b" using assms(2) by linarith+
  then show "relocated b v ! 0 = 0xdf" and "relocated b v ! 1 = 0xcf"
    using assms(1) by (simp_all add: relocated_def Let_def)
qed

lemma relocated_le16:
  assumes "v + 1 < length b"
  shows "le16 (relocated b v) v = 0xC000 + (le16 b 0 mod 4096 + 33) mod 4096"
proof -
  let ?V = "0xC000 + (le16 b 0 mod 4096 + 33) mod (4096 :: nat)"
  have "(le16 b 0 mod 4096 + 33) mod 4096 < 4096" by simp
  then have V: "?V < 65536" by linarith
  then have hi: "?V div 256 < 256" by simp
  have "unat (of_nat (?V mod 256) :: byte) = ?V mod 256"
    by (simp add: unat_of_nat)
  moreover have "unat (of_nat (?V div 256) :: byte) = ?V div 256"
    using hi by (simp add: unat_of_nat)
  ultimately show ?thesis
    using assms by (simp add: relocated_def Let_def le16_def)
qed

lemma relocated_frame:
  assumes "i \<noteq> 0" and "i \<noteq> 1" and "i \<noteq> v" and "i \<noteq> v + 1"
  shows "relocated b v ! i = b ! i"
  using assms by (simp add: relocated_def Let_def)

lemma mask_ff_32: "(0xff :: uint) = mask 8"
  by (simp add: mask_eq_exp_minus_1)

lemma mask_ff00_32: "(0xff00 :: uint) = push_bit 8 (mask 8)"
  by (simp add: mask_eq_exp_minus_1)

lemma lo_byte_32: "(ucast ((a::uint) AND 0xff) :: byte) = of_nat (unat a)"
proof -
  have "(ucast (a AND 0xff) :: byte) = ucast a"
    unfolding mask_ff_32 by (rule bit_word_eqI) (auto simp: bit_simps)
  then show ?thesis by simp
qed

lemma hi_byte_32:
  "(ucast (drop_bit 8 ((a::uint) AND 0xff00)) :: byte) = of_nat (unat a div 256)"
proof -
  have "(ucast (drop_bit 8 (a AND 0xff00)) :: byte) = ucast (drop_bit 8 a)"
    unfolding mask_ff00_32 by (rule bit_word_eqI) (auto simp: bit_simps)
  moreover have "unat (drop_bit 8 a) = unat a div 256"
    by (simp add: unat_drop_bit_eq drop_bit_eq_div unat_div)
  moreover have "(ucast (drop_bit 8 a) :: byte) = of_nat (unat (drop_bit 8 a))"
    by simp
  ultimately show ?thesis by simp
qed

lemma wait_ack_good:
  assumes "good_acks (Suc k) w"
  shows "picoboot_wait_ack w =
     (Return 0, w\<lparr>trace := trace w @ [ack_ok], incoming := drop 1 (incoming w)\<rparr>)"
proof -
  from assms obtain rs where "incoming w = RecvByte 0 # rs"
    by (rule good_acks_Suc)
  then show ?thesis
    by (simp add: picoboot_wait_ack_def serial_recv_def ack_ok_def)
qed

lemma wire_record:
  "wire \<lparr>data_lo = lo, data_hi = hi, check = c, command = cmd\<rparr> = wire (make_frame lo hi cmd)"
  by (simp add: wire_def set_check_def make_frame_def)

lemma send_wait_good:
  assumes "good_acks (Suc k) w"
  shows "picoboot_wait_ack (picoboot_send_frame f w) =
     (Return 0, w\<lparr>trace := trace w @ [Sent (wire f), ack_ok], incoming := drop 1 (incoming w)\<rparr>)"
proof -
  let ?w1 = "w\<lparr>trace := trace w @ [Sent (wire f)]\<rparr>"
  have "good_acks (Suc k) ?w1" using assms by (simp add: good_acks_def)
  then have "picoboot_wait_ack ?w1 =
     (Return 0, ?w1\<lparr>trace := trace ?w1 @ [ack_ok], incoming := drop 1 (incoming ?w1)\<rparr>)"
    by (rule wait_ack_good)
  then show ?thesis
    by (simp add: picoboot_send_frame_def serial_send_def wire_def)
qed

lemma erase_page_good:
  assumes "good_acks (Suc k) w"
  shows "erase_page pa w =
     (Return 0, w\<lparr>trace := trace w @ [Sent (wire (erase_frame (unat pa))), ack_ok],
                  incoming := drop 1 (incoming w)\<rparr>)"
  unfolding erase_page_def lo_byte_32 hi_byte_32 send_wait_good [OF assms] wire_record
  by (simp add: erase_frame_def)

lemma write_page_good:
  assumes "good_acks (Suc k) w"
  shows "write_page pa w =
     (Return 0, w\<lparr>trace := trace w @ [Sent (wire (write_frame (unat pa))), ack_ok],
                  incoming := drop 1 (incoming w)\<rparr>)"
  unfolding write_page_def lo_byte_32 hi_byte_32 send_wait_good [OF assms] wire_record
  by (simp add: write_frame_def)

lemma or_fail_Return0: "or_fail (Some (Return 0, w)) rest = rest w"
  by (simp add: or_fail_def)

lemma length_fill_frames: "length (fill_frames b a n) = 2 * n"
  by (induction n arbitrary: a) (simp_all add: fill_frames_0 fill_frames_Suc word_frames_def)

lemma page_steps_good:
  assumes "window w = []" and "unat ps mod 8 = 0"
    and "good_acks (unat ps + (2 + k)) w"
    and "unat fa + unat ps \<le> 65535" and "unat fa + unat ps \<le> length b"
    and "unat pa = unat fa"
  shows "page_steps b ps fa pa w rest =
     rest (w\<lparr>trace := trace w @ page_events b (unat fa) (unat ps),
             incoming := drop (unat ps + 2) (incoming w), window := []\<rparr>)"
proof -
  let ?n = "unat ps div 2"
  let ?fs = "fill_frames b (unat fa) ?n"
  have ev: "unat ps mod 2 = 0" using assms(2) by presburger
  then have half: "(unat ps + 1) div 2 = ?n" and dbl: "2 * ?n = unat ps"
    by presburger+
  have d8: "8 * (unat ps div 8) = unat ps" using assms(2) by presburger
  have fill: "fill_page_buf b ps fa w = Some (send_seq ?fs w)"
    using fill_page_buf_send_seq [of fa ps b w] assms(4,5) by (simp only: half dbl)
  have lf: "length ?fs = unat ps"
    by (simp only: length_fill_frames dbl)
  have g1: "good_acks (unat ps) w" and g2: "take (2 + k) (drop (unat ps) (incoming w)) = replicate (2 + k) (RecvByte 0)"
    using good_acks_split [OF assms(3)] by simp_all
  let ?w1 = "w\<lparr>trace := trace w @ flush_events ?fs,
               incoming := drop (unat ps) (incoming w), window := []\<rparr>"
  have "send_seq ?fs w =
     (Return 0, w\<lparr>trace := trace w @ flush_events ([] @ ?fs),
                  incoming := drop (8 * ((length ([]::frame list) + length ?fs) div 8)) (incoming w),
                  window := concat (map wire (leftover ([] @ ?fs)))\<rparr>)"
    using assms(1) g1 by (intro send_seq_good) (simp_all add: lf d8)
  then have s: "send_seq ?fs w = (Return 0, ?w1)"
    by (simp add: lf d8 leftover_def MAX_FRAMES_def)
  have "good_acks (Suc (Suc k)) ?w1" using g2 by (simp add: good_acks_def)
  then have e: "erase_page pa ?w1 =
     (Return 0, ?w1\<lparr>trace := trace ?w1 @ [Sent (wire (erase_frame (unat pa))), ack_ok],
                  incoming := drop 1 (incoming ?w1)\<rparr>)"
    by (rule erase_page_good)
  let ?w2 = "?w1\<lparr>trace := trace ?w1 @ [Sent (wire (erase_frame (unat pa))), ack_ok],
                  incoming := drop 1 (incoming ?w1)\<rparr>"
  have "take (1 + (1 + k)) (drop (unat ps) (incoming w)) = replicate (1 + (1 + k)) (RecvByte 0)"
    using g2 by simp
  then have "take (1 + k) (drop 1 (drop (unat ps) (incoming w))) = replicate (1 + k) (RecvByte 0)"
    by (metis add.commute drop_take add_diff_cancel_right' drop_replicate)
  then have "good_acks (Suc k) ?w2" by (simp add: good_acks_def)
  then have wr: "write_page pa ?w2 =
     (Return 0, ?w2\<lparr>trace := trace ?w2 @ [Sent (wire (write_frame (unat pa))), ack_ok],
                  incoming := drop 1 (incoming ?w2)\<rparr>)"
    by (rule write_page_good)
  have "?w2\<lparr>trace := trace ?w2 @ [Sent (wire (write_frame (unat pa))), ack_ok],
                  incoming := drop 1 (incoming ?w2)\<rparr> =
        w\<lparr>trace := trace w @ page_events b (unat fa) (unat ps),
             incoming := drop (unat ps + 2) (incoming w), window := []\<rparr>"
    by (cases w) (simp add: page_events_def assms(6))
  then show ?thesis
    by (simp only: page_steps_def fill s or_fail_Return0 e wr)
qed

lemma sent_bytes_append: "sent_bytes (xs @ ys) = sent_bytes xs @ sent_bytes ys"
  by (induction xs rule: sent_bytes.induct) simp_all

lemma sent_bytes_acks: "sent_bytes (replicate n ack_ok) = []"
  by (induction n) (simp_all add: ack_ok_def)

lemma sent_bytes_flush_events:
  "length fs mod 8 = 0 \<Longrightarrow> sent_bytes (flush_events fs) = concat (map wire fs)"
proof (induction fs rule: flush_events.induct)
  case (1 fs)
  show ?case
  proof (cases "length fs < 8")
    case True
    then have "fs = []" using "1.prems" by simp
    then show ?thesis by (simp add: flush_events_short)
  next
    case False
    have fe: "flush_events fs =
        (Sent (concat (map wire (take 8 fs))) # replicate 8 ack_ok) @ flush_events (drop 8 fs)"
      using False by (subst flush_events.simps) (simp add: MAX_FRAMES_def)
    have "length (drop 8 fs) mod 8 = 0"
      using False "1.prems" le_mod_geq [of 8 "length fs"] by simp
    then have "sent_bytes (flush_events (drop 8 fs)) = concat (map wire (drop 8 fs))"
      using "1.IH" False by (simp add: MAX_FRAMES_def)
    moreover have "concat (map wire (take 8 fs)) @ concat (map wire (drop 8 fs)) =
        concat (map wire fs)"
      by (simp flip: concat_append map_append)
    ultimately show ?thesis
      by (simp add: fe sent_bytes_append sent_bytes_acks)
  qed
qed

lemma sent_bytes_page_events:
  assumes "ps mod 8 = 0"
  shows "sent_bytes (page_events b a ps) = concat (map wire (page_frames b a ps))"
proof -
  have "2 * (ps div 2) = ps" using assms by presburger
  then have "length (fill_frames b a (ps div 2)) mod 8 = 0"
    using assms by (simp only: length_fill_frames)
  then show ?thesis
    by (simp add: page_events_def page_frames_def sent_bytes_append sent_bytes_flush_events
        ack_ok_def)
qed

text \<open>
  C2. For a flash image whose first two bytes are the little-endian word
  \<open>0xC000 + T\<close> with \<open>T < 4096\<close>, a relative jump with target offset \<open>T\<close>, the paged
  write at address 0 returns, whatever the transport does, with an image whose bytes 0
  and 1 are 0xdf and 0xcf and whose two bytes at offset \<open>size - 66\<close> hold, low byte
  first, \<open>0xC000 + (T + 33) mod 4096\<close>. The image is addressable with 16 bits, the
  slot lies behind the reset vector (\<open>68 \<le> size\<close>) and a page is not larger than the
  application area.
\<close>

theorem reset_vector_is_relocated:
  assumes "flash_image m" and "68 \<le> size_m m" and "uint page_size \<le> size_m m - 66"
    and "le16 (buf m) 0 = 0xC000 + T" and "T < 4096"
  shows "\<exists>out w' m'. picoboot_paged_write m page_size 0 num_bytes w = Some (out, w', m') \<and>
     buf m' ! 0 = 0xdf \<and> buf m' ! 1 = 0xcf \<and>
     le16 (buf m') (nat (size_m m - 66)) = 0xC000 + (T + 33) mod 4096"
proof -
  have len: "int (length (buf m)) = size_m m"
    using assms(1) by (simp add: flash_image_def)
  have "(12 * 4096 + T) div 4096 = 12 + T div 4096"
    by (rule div_mult_self3) simp
  moreover have "(12 * 4096 + T) mod 4096 = T mod 4096"
    by (rule mod_mult_self3)
  ultimately have "(49152 + T) div 4096 = 12" and "(49152 + T) mod 4096 = T"
    using assms(5) by simp_all
  then have d: "le16 (buf m) 0 div 4096 = 12" and t: "le16 (buf m) 0 mod 4096 = T"
    using assms(4) by simp_all
  have "66 < size_m m" using assms(2) by simp
  from paged_write_zero_Some [OF assms(1) this assms(3) d]
  obtain out w' where r: "picoboot_paged_write m page_size 0 num_bytes w =
     Some (out, w', m\<lparr>buf := relocated (buf m) (nat (size_m m - 66))\<rparr>)"
    by blast
  have v: "2 \<le> nat (size_m m - 66)" and l2: "2 \<le> length (buf m)"
    and v1: "nat (size_m m - 66) + 1 < length (buf m)"
    using assms(2) len by linarith+
  show ?thesis
    using r relocated_head [OF v l2] relocated_le16 [OF v1] t by simp
qed

theorem reset_vector_is_relocated_witness:
  "flash_image tiny_image \<and> 68 \<le> size_m tiny_image \<and>
   uint (16 :: uint) \<le> size_m tiny_image - 66 \<and>
   le16 (buf tiny_image) 0 = 0xC000 + 15 \<and> (15 :: nat) < 4096 \<and>
   (\<exists>out w' m'. picoboot_paged_write tiny_image 16 0 16 (quiet_world 36) = Some (out, w', m') \<and>
      buf m' ! 0 = 0xdf \<and> buf m' ! 1 = 0xcf \<and> le16 (buf m') 62 = 0xC000 + 48)"
  using reset_vector_is_relocated [of tiny_image 16 15 16 "quiet_world 36"]
  by (simp add: flash_image_def tiny_image_def le16_def)

text \<open>
  C10. Every paged write to a flash image returns, and the image it leaves has the
  class name, the size and the length of the one it got; a call at an address other
  than 0 leaves the very same image; and a byte that differs after the call has one of
  the offsets 0, 1, \<open>size - 66\<close> and \<open>size - 65\<close>. Only the call at address 0 changes
  the image, and only there.
\<close>

theorem image_changes_in_four_bytes_only:
  assumes "flash_image m" and "uint page_size \<le> size_m m - 66"
  shows "\<exists>out w' m'. picoboot_paged_write m page_size addr num_bytes w = Some (out, w', m') \<and>
     desc m' = desc m \<and> size_m m' = size_m m \<and> length (buf m') = length (buf m) \<and>
     (addr \<noteq> 0 \<longrightarrow> m' = m) \<and>
     (\<forall>i. buf m' ! i \<noteq> buf m ! i \<longrightarrow>
        i \<in> {0, 1, nat (size_m m - 66), nat (size_m m - 65)})"
proof (cases "addr = 0")
  case False
  from paged_write_nonzero_Some [OF assms False]
  obtain out w' where "picoboot_paged_write m page_size addr num_bytes w = Some (out, w', m)"
    by blast
  then show ?thesis using False by simp
next
  case True
  have fl: "desc m = ''flash''" and s1: "66 \<le> size_m m" and s2: "size_m m \<le> 65536"
    and len: "int (length (buf m)) = size_m m"
    using assms(1) by (simp_all add: flash_image_def)
  show ?thesis
  proof (cases "66 < size_m m \<and> le16 (buf m) 0 div 4096 = 12")
    case True
    then have "\<exists>out w'. picoboot_paged_write m page_size 0 num_bytes w =
       Some (out, w', m\<lparr>buf := relocated (buf m) (nat (size_m m - 66))\<rparr>)"
      using assms by (intro paged_write_zero_Some) simp_all
    then obtain out w' where r: "picoboot_paged_write m page_size 0 num_bytes w =
       Some (out, w', m\<lparr>buf := relocated (buf m) (nat (size_m m - 66))\<rparr>)"
      by blast
    have "nat (size_m m - 65) = nat (size_m m - 66) + 1"
      using s1 by linarith
    then have "\<forall>i. relocated (buf m) (nat (size_m m - 66)) ! i \<noteq> buf m ! i \<longrightarrow>
        i \<in> {0, 1, nat (size_m m - 66), nat (size_m m - 65)}"
      using relocated_frame [of _ "nat (size_m m - 66)" "buf m"] by auto
    then show ?thesis
      using r \<open>addr = 0\<close> by (simp add: relocated_length)
  next
    case False
    let ?v = "ucast (word_of_int (size_m m - 66) :: uint16) :: uint"
    let ?a = "ucast (buf m ! 0) OR push_bit 8 (ucast (buf m ! 1)) :: uint16"
    have v: "uint ?v = size_m m - 66"
      using s1 s2 by (rule uint_vrst_exact)
    have "picoboot_paged_write m page_size 0 num_bytes w = Some (Exit BootloaderWrite, w, m) \<or>
          picoboot_paged_write m page_size 0 num_bytes w = Some (Exit NoResetVector, w, m)"
    proof (cases "66 < size_m m")
      case True
      then have "uint ?v \<noteq> 0" using v by simp
      then have nz: "?v \<noteq> 0" by (simp add: uint_0_iff)
      have l2: "\<not> length (buf m) < 2" using len True by linarith
      have "unat ?a = le16 (buf m) 0"
        by (simp add: unat_le16_word le16_def)
      then have a: "?a AND 0xF000 \<noteq> 0xC000"
        using False True by (simp only: rjmp_test) simp
      show ?thesis
        using fl nz l2 a by (simp add: picoboot_paged_write_def BOOTLOADER_SIZE_def Let_def)
    next
      case False
      then have "uint ?v = 0" using v s1 by simp
      then have "?v = 0" by (simp add: uint_0_iff)
      then show ?thesis
        using fl by (simp add: picoboot_paged_write_def BOOTLOADER_SIZE_def Let_def)
    qed
    then show ?thesis using \<open>addr = 0\<close> by auto
  qed
qed

theorem image_changes_in_four_bytes_only_witness:
  "flash_image tiny_image \<and> uint (16 :: uint) \<le> size_m tiny_image - 66 \<and>
   (\<exists>out w' m'. picoboot_paged_write tiny_image 16 16 16 (quiet_world 18) = Some (out, w', m') \<and>
      desc m' = desc tiny_image \<and> size_m m' = size_m tiny_image \<and>
      length (buf m') = length (buf tiny_image) \<and> m' = tiny_image \<and>
      (\<forall>i. buf m' ! i \<noteq> buf tiny_image ! i \<longrightarrow> i \<in> {0, 1, 62, 63})) \<and>
   (\<exists>out w' m'. picoboot_paged_write tiny_image 16 0 16 (quiet_world 36) = Some (out, w', m') \<and>
      desc m' = desc tiny_image \<and> size_m m' = size_m tiny_image \<and>
      length (buf m') = length (buf tiny_image) \<and>
      (\<forall>i. buf m' ! i \<noteq> buf tiny_image ! i \<longrightarrow> i \<in> {0, 1, 62, 63}))"
  using image_changes_in_four_bytes_only [of tiny_image 16 16 16 "quiet_world 18"]
    image_changes_in_four_bytes_only [of tiny_image 16 0 16 "quiet_world 36"]
  by (simp add: flash_image_def tiny_image_def)

subsection \<open>The events of a page in the wire format\<close>

lemma set_check_make_frame: "set_check (make_frame lo hi cmd) = make_frame lo hi cmd"
  by (simp add: set_check_def make_frame_def)

lemma wire_octets: "set_check f = f \<Longrightarrow> wire f = octets f"
  by (simp add: wire_def frame_bytes_def octets_def)

lemma fill_frames_checked: "f \<in> set (fill_frames b a n) \<Longrightarrow> set_check f = f"
  by (induction n arbitrary: a)
     (auto simp: fill_frames_0 fill_frames_Suc word_frames_def set_check_make_frame)

lemma map_wire_octets:
  assumes "\<And>f. f \<in> set fs \<Longrightarrow> set_check f = f"
  shows "map wire fs = map octets fs"
  using assms by (induction fs) (simp_all add: wire_octets)

lemma flush_events_burst:
  "(\<And>f. f \<in> set fs \<Longrightarrow> set_check f = f) \<Longrightarrow> flush_events fs = burst_events fs"
proof (induction fs rule: flush_events.induct)
  case (1 fs)
  show ?case
  proof (cases "length fs < 8")
    case True
    then show ?thesis
      by (subst flush_events.simps, subst burst_events.simps) (simp add: MAX_FRAMES_def)
  next
    case False
    have "\<And>f. f \<in> set (take 8 fs) \<Longrightarrow> set_check f = f"
      using "1.prems" by (meson in_set_takeD)
    then have t: "map wire (take 8 fs) = map octets (take 8 fs)"
      by (rule map_wire_octets)
    have "\<And>f. f \<in> set (drop 8 fs) \<Longrightarrow> set_check f = f"
      using "1.prems" by (meson in_set_dropD)
    then have ih: "flush_events (drop 8 fs) = burst_events (drop 8 fs)"
      using "1.IH" False by (simp add: MAX_FRAMES_def)
    show ?thesis
      using False
      by (subst flush_events.simps, subst burst_events.simps)
         (simp add: MAX_FRAMES_def t ih ack_ok_def)
  qed
qed

lemma page_events_trace: "page_events b a ps = page_trace b a ps"
proof -
  have "flush_events (fill_frames b a (ps div 2)) = burst_events (fill_frames b a (ps div 2))"
    by (rule flush_events_burst) (rule fill_frames_checked)
  then show ?thesis
    by (simp add: page_events_def page_trace_def ack_ok_def wire_octets erase_frame_def
        write_frame_def set_check_make_frame)
qed

lemma sent_bytes_page_octets:
  assumes "ps mod 8 = 0"
  shows "sent_bytes (page_events b a ps) = concat (map octets (page_frames b a ps))"
proof -
  have "map wire (page_frames b a ps) = map octets (page_frames b a ps)"
    by (rule map_wire_octets)
       (auto simp: page_frames_def erase_frame_def write_frame_def set_check_make_frame
          dest: fill_frames_checked)
  then show ?thesis
    unfolding sent_bytes_page_events [OF assms] by (simp only:)
qed

text \<open>
  C3, as the code has it. For a paged write at address 0 of a flash image with a valid
  reset vector, when the page size is a multiple of 8, so that the fill frames of a
  page fill whole windows, the window is empty at the start and every acknowledgement
  is good, the call returns \<open>num_bytes\<close> with the redirected image and the transport
  events it adds are exactly: the bursts of the fill frames of the page that holds the
  virtual reset vector (at \<open>size - 66 - page_size + 2\<close>), each followed by its eight
  reads, then the erase frame of that page and its read, then its write frame and its
  read; after that the same for page 0. So the bytes sent are the fill, erase and
  write frames of the vector page followed by those of page 0, the call has read
  \<open>2 * page_size + 4\<close> acknowledgements, and the window is empty again.
\<close>

theorem vector_page_is_written_first:
  assumes "flash_image m" and "66 < size_m m" and "uint page_size \<le> size_m m - 66"
    and "unat page_size mod 8 = 0" and "le16 (buf m) 0 div 4096 = 12"
    and "window w = []" and "good_acks (2 * unat page_size + 4) w"
  shows "\<exists>w' m'. picoboot_paged_write m page_size 0 num_bytes w =
       Some (Return (sint num_bytes), w', m') \<and>
     buf m' = relocated (buf m) (nat (size_m m - 66)) \<and>
     trace w' = trace w @
       page_trace (buf m') (nat (size_m m - 66) - unat page_size + 2) (unat page_size) @
       page_trace (buf m') 0 (unat page_size) \<and>
     sent_bytes (trace w') = sent_bytes (trace w) @
       concat (map octets
         (page_frames (buf m') (nat (size_m m - 66) - unat page_size + 2) (unat page_size) @
          page_frames (buf m') 0 (unat page_size))) \<and>
     incoming w' = drop (2 * unat page_size + 4) (incoming w) \<and>
     window w' = []"
proof -
  have s1: "66 \<le> size_m m" and s2: "size_m m \<le> 65536"
    and len: "int (length (buf m)) = size_m m"
    using assms(1) by (simp_all add: flash_image_def)
  let ?b = "relocated (buf m) (nat (size_m m - 66))"
  let ?vp = "ucast (ucast (word_of_int (size_m m - 66) :: uint16) - page_size + 2 :: uint) :: uint16"
  let ?p = "unat page_size"
  let ?a = "nat (size_m m - 66) - ?p + 2"
  obtain v where v: "v = nat (size_m m - 66)" by simp
  have lbm: "length (buf m) = v + 66" and v16: "v \<le> 65470"
    using len s1 s2 v by linarith+
  have lb: "length ?b = v + 66"
    using lbm by (simp add: relocated_length)
  have ups: "?p \<le> v"
    using assms(3) uint_nat [of page_size] s1 v by linarith
  have vp: "unat ?vp = v - ?p + 2"
    unfolding v using s1 s2 assms(3) by (rule unat_vrst_page)
  have sum: "unat ?vp + ?p = v + 2" using vp ups by simp
  have c1: "unat ?vp + ?p \<le> 65535" unfolding sum using v16 by simp
  have c2: "unat ?vp + ?p \<le> length ?b" unfolding sum lb by simp
  have "?p + (2 + (?p + 2)) = 2 * ?p + 4" by simp
  then have g: "good_acks (?p + (2 + (?p + 2))) w"
    using assms(7) by (simp only:)
  let ?w1 = "w\<lparr>trace := trace w @ page_events ?b (unat ?vp) ?p,
               incoming := drop (?p + 2) (incoming w), window := []\<rparr>"
  let ?w2 = "?w1\<lparr>trace := trace ?w1 @ page_events ?b (unat (ucast (0 :: uint) :: uint16)) ?p,
               incoming := drop (?p + 2) (incoming ?w1), window := []\<rparr>"
  have first: "page_steps ?b page_size ?vp (ucast ?vp) w rest = rest ?w1" for rest
    using assms(6,4) g c1 c2 by (rule page_steps_good) (rule unat_ucast_16_32)
  have "take (?p + 2) (drop (?p + 2) (incoming w)) = replicate (?p + 2) (RecvByte 0)"
    using good_acks_split(2) [of "?p + 2" "?p + 2" w] g by (simp add: add.assoc)
  then have g1: "good_acks (?p + (2 + 0)) ?w1" by (simp add: good_acks_def)
  have second: "page_steps ?b page_size (ucast (0 :: uint)) 0 ?w1 rest = rest ?w2" for rest
    using _ assms(4) g1 by (rule page_steps_good) (use ups lb v16 in simp_all)
  have r: "picoboot_paged_write m page_size 0 num_bytes w =
     Some (Return (sint num_bytes), ?w2, m\<lparr>buf := ?b\<rparr>)"
    unfolding paged_write_zero [OF assms(1,2,3,5)] first second
    by (simp add: with_mem_def)
  have t: "trace ?w2 = trace w @ page_trace ?b ?a ?p @ page_trace ?b 0 ?p"
    unfolding vp [unfolded v] by (simp add: page_events_trace)
  have sb: "sent_bytes (trace ?w2) = sent_bytes (trace w) @
       concat (map octets (page_frames ?b ?a ?p @ page_frames ?b 0 ?p))"
    unfolding vp [unfolded v]
    by (simp add: sent_bytes_append sent_bytes_page_octets [OF assms(4)])
  have "incoming ?w2 = drop (?p + 2 + (?p + 2)) (incoming w)"
    by simp
  moreover have "?p + 2 + (?p + 2) = 2 * ?p + 4"
    by simp
  ultimately have inc: "incoming ?w2 = drop (2 * ?p + 4) (incoming w)"
    by (simp only:)
  show ?thesis
    using r t sb inc by (intro exI [of _ ?w2] exI [of _ "m\<lparr>buf := ?b\<rparr>"]) simp
qed

theorem vector_page_is_written_first_witness:
  "flash_image tiny_image \<and> 66 < size_m tiny_image \<and>
   uint (16 :: uint) \<le> size_m tiny_image - 66 \<and> unat (16 :: uint) mod 8 = 0 \<and>
   le16 (buf tiny_image) 0 div 4096 = 12 \<and> window (quiet_world 36) = [] \<and>
   good_acks (2 * unat (16 :: uint) + 4) (quiet_world 36) \<and>
   (\<exists>w' m'. picoboot_paged_write tiny_image 16 0 16 (quiet_world 36) =
       Some (Return 16, w', m') \<and>
     buf m' = relocated (buf tiny_image) 62 \<and>
     trace w' = page_trace (buf m') 48 16 @ page_trace (buf m') 0 16 \<and>
     sent_bytes (trace w') =
       concat (map octets (page_frames (buf m') 48 16 @ page_frames (buf m') 0 16)) \<and>
     incoming w' = [] \<and> window w' = [])"
  using vector_page_is_written_first [of tiny_image 16 "quiet_world 36" 16]
  by (simp add: flash_image_def tiny_image_def le16_def quiet_world_def good_acks_def)

text \<open>
  C3, as the claim has it, fails for a page size that does not fill whole windows. With
  4-byte pages the four fill frames of the vector page at 60 are still in the window
  when its erase frame (command 3) and its write frame (command 5) are sent; they
  reach the transport only afterwards, in one burst with the fill frames of page 0.
  The call returns the byte count all the same.
\<close>

theorem erase_overtakes_fill_counterexample:
  "map_option fst (picoboot_paged_write tiny_image 4 0 4 (quiet_world 12)) = Some (Return 4) \<and>
   take 5 (trace_of (picoboot_paged_write tiny_image 4 0 4 (quiet_world 12))) =
     [Sent [60, 0, 63, 3], Recvd (RecvByte 0), Sent [60, 0, 57, 5], Recvd (RecvByte 0),
      Sent [255, 255, 0, 0, 60, 0, 61, 1, 48, 192, 240, 0, 62, 0, 63, 1,
            223, 207, 16, 0, 0, 0, 1, 1, 255, 255, 0, 0, 2, 0, 3, 1]]"
  by code_simp

section \<open>Failed acknowledgements\<close>

lemma flush_stops_Cons:
  assumes "flush_stops out evs" and "\<not> timed_out x" and "\<not> bad_byte x"
  shows "flush_stops out (x # evs)"
  using assms unfolding flush_stops_def
  by (metis append_Cons set_ConsD)

lemma ack_loop_flush_stops:
  "\<exists>evs. trace (snd (ack_loop n w)) = trace w @ evs \<and> flush_stops (fst (ack_loop n w)) evs"
proof (induction n arbitrary: w)
  case 0
  then show ?case by (simp add: flush_stops_def)
next
  case (Suc n)
  show ?case
  proof (cases "incoming w")
    case Nil
    then have "ack_loop (Suc n) w = (Return (- 1), w\<lparr>trace := trace w @ [Recvd RecvFail]\<rparr>)"
      by (simp add: picoboot_wait_ack_def serial_recv_def)
    moreover have "flush_stops (Return (- 1)) [Recvd RecvFail]"
      unfolding flush_stops_def by (rule disjI2, rule exI [of _ "[]"]) (simp add: timed_out_def)
    ultimately show ?thesis by simp
  next
    case (Cons r rs)
    let ?w1 = "w\<lparr>trace := trace w @ [Recvd r], incoming := rs\<rparr>"
    show ?thesis
    proof (cases r)
      case RecvFail
      then have "ack_loop (Suc n) w = (Return (- 1), ?w1)"
        using Cons by (simp add: picoboot_wait_ack_def serial_recv_def)
      moreover have "flush_stops (Return (- 1)) [Recvd RecvFail]"
        unfolding flush_stops_def by (rule disjI2, rule exI [of _ "[]"]) (simp add: timed_out_def)
      ultimately show ?thesis using RecvFail by simp
    next
      case (RecvByte v)
      show ?thesis
      proof (cases "v = 0")
        case False
        then have "ack_loop (Suc n) w = (Exit ProtocolError, ?w1)"
          using Cons RecvByte by (simp add: picoboot_wait_ack_def serial_recv_def)
        moreover have "flush_stops (Exit ProtocolError) [Recvd (RecvByte v)]"
          unfolding flush_stops_def using False
          by (intro disjI2 exI [of _ "[]"]) (simp add: bad_byte_def)
        ultimately show ?thesis using RecvByte by simp
      next
        case True
        then have step: "ack_loop (Suc n) w = ack_loop n ?w1"
          using Cons RecvByte by (simp add: picoboot_wait_ack_def serial_recv_def)
        from Suc.IH [of ?w1] obtain evs where
          t: "trace (snd (ack_loop n ?w1)) = trace ?w1 @ evs"
          and f: "flush_stops (fst (ack_loop n ?w1)) evs" by blast
        have "flush_stops (fst (ack_loop n ?w1)) (Recvd r # evs)"
          using f by (rule flush_stops_Cons) (simp_all add: RecvByte True timed_out_def bad_byte_def)
        moreover have "trace (snd (ack_loop n ?w1)) = trace w @ (Recvd r # evs)"
          using t by simp
        ultimately show ?thesis unfolding step by blast
      qed
    qed
  qed
qed

lemma buffered_send_flush_stops:
  "\<exists>evs. trace (snd (picoboot_buffered_send f w)) = trace w @ evs \<and>
     flush_stops (fst (picoboot_buffered_send f w)) evs"
proof (cases "length (window w @ frame_bytes (set_check f)) = MAX_FRAMES * sizeof_frame")
  case False
  then show ?thesis
    by (simp add: picoboot_buffered_send_def Let_def flush_stops_def)
next
  case True
  let ?bs = "window w @ frame_bytes (set_check f)"
  let ?w2 = "(serial_send ?bs (w\<lparr>window := ?bs\<rparr>))\<lparr>window := []\<rparr>"
  have eq: "picoboot_buffered_send f w = ack_loop MAX_FRAMES ?w2"
    using True by (simp add: picoboot_buffered_send_def Let_def)
  from ack_loop_flush_stops [of MAX_FRAMES ?w2] obtain evs where
    t: "trace (snd (ack_loop MAX_FRAMES ?w2)) = trace ?w2 @ evs"
    and f: "flush_stops (fst (ack_loop MAX_FRAMES ?w2)) evs" by blast
  have "flush_stops (fst (ack_loop MAX_FRAMES ?w2)) (Sent ?bs # evs)"
    using f by (rule flush_stops_Cons) (simp_all add: timed_out_def bad_byte_def)
  then show ?thesis
    using t unfolding eq by (simp add: serial_send_def)
qed

lemma flush_stops_split:
  assumes "flush_stops out evs" and "evs = pre @ e # post"
  shows "timed_out e \<Longrightarrow> post = [] \<and> out = Return (- 1)"
    and "bad_byte e \<Longrightarrow> post = [] \<and> out = Exit ProtocolError"
proof -
  have e: "e \<in> set evs" using assms(2) by simp
  have main: "post = [] \<and>
      (timed_out e \<and> out = Return (- 1) \<or> bad_byte e \<and> out = Exit ProtocolError)"
    if fail: "timed_out e \<or> bad_byte e"
  proof -
    have "\<exists>pre' e'. evs = pre' @ [e'] \<and> (\<forall>x\<in>set pre'. \<not> timed_out x \<and> \<not> bad_byte x) \<and>
         (timed_out e' \<and> out = Return (- 1) \<or> bad_byte e' \<and> out = Exit ProtocolError)"
      using assms(1) e fail unfolding flush_stops_def by blast
    then obtain pre' e' where s: "evs = pre' @ [e']"
      and c: "\<forall>x\<in>set pre'. \<not> timed_out x \<and> \<not> bad_byte x"
      and o: "timed_out e' \<and> out = Return (- 1) \<or> bad_byte e' \<and> out = Exit ProtocolError"
      by blast
    have p: "post = []"
    proof (rule ccontr)
      assume "post \<noteq> []"
      then have "butlast evs = pre @ e # butlast post"
        using assms(2) by (simp add: butlast_append)
      then have "e \<in> set (butlast evs)" by simp
      then have "e \<in> set pre'" using s by simp
      then show False using c fail by blast
    qed
    then have "e' = e" using s assms(2) by simp
    then show ?thesis using p o by simp
  qed
  have excl: "\<not> (timed_out e \<and> bad_byte e)"
    by (auto simp: timed_out_def bad_byte_def split: event.splits recv_result.splits)
  show "timed_out e \<Longrightarrow> post = [] \<and> out = Return (- 1)"
    using main excl by blast
  show "bad_byte e \<Longrightarrow> post = [] \<and> out = Exit ProtocolError"
    using main excl by blast
qed

lemma flush_stops_bad_stops:
  assumes "flush_stops out evs"
  shows "bad_stops out evs"
proof -
  have excl: "\<not> (timed_out e \<and> bad_byte e)" for e
    by (auto simp: timed_out_def bad_byte_def split: event.splits recv_result.splits)
  from assms consider
    (ok) "out = Return 0" and "\<forall>x\<in>set evs. \<not> timed_out x \<and> \<not> bad_byte x"
    | (timeout) pre e where "evs = pre @ [e]" and "\<forall>x\<in>set pre. \<not> timed_out x \<and> \<not> bad_byte x"
        and "timed_out e" and "out = Return (- 1)"
    | (bad) pre e where "evs = pre @ [e]" and "\<forall>x\<in>set pre. \<not> timed_out x \<and> \<not> bad_byte x"
        and "bad_byte e" and "out = Exit ProtocolError"
    unfolding flush_stops_def by blast
  then show ?thesis
  proof cases
    case ok
    then show ?thesis by (simp add: bad_stops_def)
  next
    case timeout
    then show ?thesis using excl [of e] by (auto simp: bad_stops_def)
  next
    case bad
    then show ?thesis by (auto simp: bad_stops_def)
  qed
qed

lemma extends_refl: "out \<noteq> Exit ProtocolError \<Longrightarrow> extends w out w"
  by (simp add: extends_def bad_stops_def)

lemma extends_trans:
  assumes "extends w o1 w1" and "o1 \<noteq> Exit ProtocolError" and "extends w1 o2 w2"
  shows "extends w o2 w2"
proof -
  from assms(1,2) obtain e1 where t1: "trace w1 = trace w @ e1"
    and c1: "\<forall>x\<in>set e1. \<not> bad_byte x"
    by (auto simp: extends_def bad_stops_def)
  from assms(3) obtain e2 where t2: "trace w2 = trace w1 @ e2" and b2: "bad_stops o2 e2"
    by (auto simp: extends_def)
  have "bad_stops o2 (e1 @ e2)"
  proof (cases "o2 = Exit ProtocolError")
    case True
    then obtain pre e where "e2 = pre @ [e]" and "bad_byte e" and "\<forall>x\<in>set pre. \<not> bad_byte x"
      using b2 by (auto simp: bad_stops_def)
    then have "e1 @ e2 = (e1 @ pre) @ [e] \<and> bad_byte e \<and> (\<forall>x\<in>set (e1 @ pre). \<not> bad_byte x)"
      using c1 by auto
    then have "\<exists>pre' e'. e1 @ e2 = pre' @ [e'] \<and> bad_byte e' \<and> (\<forall>x\<in>set pre'. \<not> bad_byte x)"
      by blast
    then show ?thesis using True by (simp add: bad_stops_def)
  next
    case False
    then show ?thesis using b2 c1 by (auto simp: bad_stops_def)
  qed
  moreover have "trace w2 = trace w @ (e1 @ e2)" using t1 t2 by simp
  ultimately show ?thesis unfolding extends_def by blast
qed

lemma extends_relabel:
  assumes "extends w o1 w1" and "o1 \<noteq> Exit ProtocolError" and "o2 \<noteq> Exit ProtocolError"
  shows "extends w o2 w1"
  using assms by (auto simp: extends_def bad_stops_def)

lemma ack_loop_extends: "extends w (fst (ack_loop n w)) (snd (ack_loop n w))"
  using ack_loop_flush_stops [of n w] flush_stops_bad_stops unfolding extends_def by blast

lemma buffered_send_extends:
  "extends w (fst (picoboot_buffered_send f w)) (snd (picoboot_buffered_send f w))"
  using buffered_send_flush_stops [of f w] flush_stops_bad_stops unfolding extends_def by blast

lemma send_seq_extends: "extends w (fst (send_seq fs w)) (snd (send_seq fs w))"
proof (induction fs arbitrary: w)
  case Nil
  then show ?case by (simp add: extends_refl)
next
  case (Cons f fs)
  obtain o1 w1 where b: "picoboot_buffered_send f w = (o1, w1)" by (cases "picoboot_buffered_send f w")
  have e1: "extends w o1 w1" using buffered_send_extends [of w f] by (simp add: b)
  show ?case
  proof (cases o1)
    case (Return r)
    then have "send_seq (f # fs) w = send_seq fs w1" by (simp add: b)
    moreover have "extends w (fst (send_seq fs w1)) (snd (send_seq fs w1))"
      using e1 _ Cons.IH [of w1] by (rule extends_trans) (simp add: Return)
    ultimately show ?thesis by simp
  next
    case (Exit e)
    then show ?thesis using e1 by (simp add: b)
  next
    case Fault
    then show ?thesis using e1 by (simp add: b)
  qed
qed

lemma send_frame_extends: "extends w (Return 0) (picoboot_send_frame f w)"
  unfolding extends_def picoboot_send_frame_def serial_send_def
  by (rule exI [of _ "[Sent (frame_bytes (set_check f))]"]) (simp add: bad_stops_def bad_byte_def)

lemma erase_page_ack_loop:
  "erase_page pa w = ack_loop (Suc 0)
     (picoboot_send_frame
        \<lparr>data_lo = ucast (pa AND 0xff), data_hi = ucast (drop_bit 8 (pa AND 0xff00)),
         check = 0, command = 0x03\<rparr> w)"
  by (simp add: erase_page_def split: prod.splits outcome.splits)

lemma write_page_ack_loop:
  "write_page pa w = ack_loop (Suc 0)
     (picoboot_send_frame
        \<lparr>data_lo = ucast (pa AND 0xff), data_hi = ucast (drop_bit 8 (pa AND 0xff00)),
         check = 0, command = 0x05\<rparr> w)"
  by (simp add: write_page_def split: prod.splits outcome.splits)

lemma erase_page_extends: "extends w (fst (erase_page pa w)) (snd (erase_page pa w))"
  unfolding erase_page_ack_loop
  using send_frame_extends _ ack_loop_extends by (rule extends_trans) simp

lemma write_page_extends: "extends w (fst (write_page pa w)) (snd (write_page pa w))"
  unfolding write_page_ack_loop
  using send_frame_extends _ ack_loop_extends by (rule extends_trans) simp

lemma or_fail_extends:
  assumes "extends w0 o1 w1"
    and "\<And>w'. extends w0 (Return 0) w' \<Longrightarrow> \<exists>out w2. rest w' = Some (out, w2) \<and> extends w0 out w2"
  shows "\<exists>out w2. or_fail (Some (o1, w1)) rest = Some (out, w2) \<and> extends w0 out w2"
proof (cases o1)
  case (Return r)
  show ?thesis
  proof (cases "r = 0")
    case True
    then show ?thesis using assms Return by (simp add: or_fail_def)
  next
    case False
    have "extends w0 (Return (- 1)) w1"
      using assms(1) by (rule extends_relabel) (simp_all add: Return)
    then show ?thesis using False Return by (simp add: or_fail_def)
  qed
next
  case (Exit e)
  then show ?thesis using assms(1) by (simp add: or_fail_def)
next
  case Fault
  then show ?thesis using assms(1) by (simp add: or_fail_def)
qed

lemma page_steps_extends:
  assumes "unat fa + 2 * ((unat ps + 1) div 2) \<le> 65535"
    and "unat fa + 2 * ((unat ps + 1) div 2) \<le> length b"
    and "extends w0 (Return 0) w"
    and rest: "\<And>w'. extends w0 (Return 0) w' \<Longrightarrow>
       \<exists>out w2. rest w' = Some (out, w2) \<and> extends w0 out w2"
  shows "\<exists>out w2. page_steps b ps fa pa w rest = Some (out, w2) \<and> extends w0 out w2"
proof -
  let ?fs = "fill_frames b (unat fa) ((unat ps + 1) div 2)"
  have fill: "fill_page_buf b ps fa w = Some (fst (send_seq ?fs w), snd (send_seq ?fs w))"
    using fill_page_buf_send_seq [OF assms(1,2)] by simp
  have e1: "extends w0 (fst (send_seq ?fs w)) (snd (send_seq ?fs w))"
    using assms(3) _ send_seq_extends by (rule extends_trans) simp
  have wr: "\<exists>out w2. or_fail (Some (write_page pa w'')) rest = Some (out, w2) \<and> extends w0 out w2"
    if "extends w0 (Return 0) w''" for w''
  proof -
    have "extends w0 (fst (write_page pa w'')) (snd (write_page pa w''))"
      using that _ write_page_extends by (rule extends_trans) simp
    then have "\<exists>out w2. or_fail (Some (fst (write_page pa w''), snd (write_page pa w''))) rest =
        Some (out, w2) \<and> extends w0 out w2"
      using rest by (rule or_fail_extends)
    then show ?thesis by simp
  qed
  have er: "\<exists>out w2. or_fail (Some (erase_page pa w'))
        (\<lambda>w2. or_fail (Some (write_page pa w2)) rest) = Some (out, w2) \<and> extends w0 out w2"
    if "extends w0 (Return 0) w'" for w'
  proof -
    have "extends w0 (fst (erase_page pa w')) (snd (erase_page pa w'))"
      using that _ erase_page_extends by (rule extends_trans) simp
    then have "\<exists>out w2. or_fail (Some (fst (erase_page pa w'), snd (erase_page pa w')))
        (\<lambda>w2. or_fail (Some (write_page pa w2)) rest) = Some (out, w2) \<and> extends w0 out w2"
      using wr by (rule or_fail_extends)
    then show ?thesis by simp
  qed
  show ?thesis
    unfolding page_steps_def fill using e1 er by (rule or_fail_extends)
qed

lemma zero_fill_conditions:
  assumes "flash_image m" and "uint page_size \<le> size_m m - 66"
  shows "unat (ucast (ucast (word_of_int (size_m m - 66) :: uint16) - page_size + 2 :: uint) :: uint16)
           + 2 * ((unat page_size + 1) div 2) \<le> 65535"
    and "unat (ucast (ucast (word_of_int (size_m m - 66) :: uint16) - page_size + 2 :: uint) :: uint16)
           + 2 * ((unat page_size + 1) div 2) \<le> length (relocated (buf m) (nat (size_m m - 66)))"
    and "unat (ucast (0 :: uint) :: uint16) + 2 * ((unat page_size + 1) div 2) \<le> 65535"
    and "unat (ucast (0 :: uint) :: uint16) + 2 * ((unat page_size + 1) div 2)
           \<le> length (relocated (buf m) (nat (size_m m - 66)))"
proof -
  have s1: "66 \<le> size_m m" and s2: "size_m m \<le> 65536"
    and len: "int (length (buf m)) = size_m m"
    using assms(1) by (simp_all add: flash_image_def)
  let ?vp = "ucast (ucast (word_of_int (size_m m - 66) :: uint16) - page_size + 2 :: uint) :: uint16"
  let ?h = "2 * ((unat page_size + 1) div 2)"
  obtain v where v: "v = nat (size_m m - 66)" by simp
  have lbm: "length (buf m) = v + 66" and v16: "v \<le> 65470"
    using len s1 s2 v by linarith+
  have lb: "length (relocated (buf m) (nat (size_m m - 66))) = v + 66"
    using lbm by (simp add: relocated_length)
  have ups: "unat page_size \<le> v"
    using assms(2) uint_nat [of page_size] s1 v by linarith
  have vp: "unat ?vp = v - unat page_size + 2"
    unfolding v using s1 s2 assms(2) by (rule unat_vrst_page)
  have half: "?h \<le> unat page_size + 1" by simp
  have sum: "unat ?vp + ?h \<le> v + 3" using vp ups half by simp
  show "unat ?vp + ?h \<le> 65535" using sum v16 by simp
  show "unat ?vp + ?h \<le> length (relocated (buf m) (nat (size_m m - 66)))"
    unfolding lb using sum by simp
  show "unat (ucast (0 :: uint) :: uint16) + ?h \<le> 65535"
    using ups half v16 by simp
  show "unat (ucast (0 :: uint) :: uint16) + ?h \<le> length (relocated (buf m) (nat (size_m m - 66)))"
    unfolding lb using ups half by simp
qed

lemma paged_write_nonzero_shape:
  assumes "flash_image m" and "uint page_size \<le> size_m m - 66" and "addr \<noteq> 0"
  shows "picoboot_paged_write m page_size addr num_bytes w = Some (Exit BootloaderWrite, w, m) \<or>
     picoboot_paged_write m page_size addr num_bytes w = Some (Return (sint num_bytes), w, m) \<or>
     unat (ucast addr :: uint16) + 2 * ((unat page_size + 1) div 2) \<le> 65535 \<and>
     unat (ucast addr :: uint16) + 2 * ((unat page_size + 1) div 2) \<le> length (buf m) \<and>
     picoboot_paged_write m page_size addr num_bytes w =
       with_mem m (page_steps (buf m) page_size (ucast addr) addr w (\<lambda>w2.
         Some (Return (sint num_bytes), w2)))"
proof -
  have fl: "desc m = ''flash''" and s1: "66 \<le> size_m m" and s2: "size_m m \<le> 65536"
    and len: "int (length (buf m)) = size_m m"
    using assms(1) by (simp_all add: flash_image_def)
  let ?v = "ucast (word_of_int (size_m m - 66) :: uint16) :: uint"
  have v: "uint ?v = size_m m - 66"
    using s1 s2 by (rule uint_vrst_exact)
  show ?thesis
  proof (cases "?v \<le> addr \<or> ?v - page_size < addr")
    case True
    then show ?thesis
      using fl by (auto simp: picoboot_paged_write_def BOOTLOADER_SIZE_def Let_def)
  next
    case False
    then have n1: "\<not> ?v \<le> addr" and n2: "\<not> ?v - page_size < addr" by simp_all
    have "uint page_size \<le> uint ?v" using v assms(2) by simp
    then have "uint (?v - page_size) = size_m m - 66 - uint page_size"
      using v by (simp add: uint_sub_lem [THEN iffD1])
    then have a: "uint addr \<le> size_m m - 66 - uint page_size"
      using n2 by (simp add: word_less_def)
    have a16: "uint addr < 65536" using a s2 uint_ge_0 [of page_size] by linarith
    have "unat addr < 65536"
      using a16 uint_nat [of addr] by linarith
    then have ua: "unat (ucast addr :: uint16) = unat addr"
      by (simp add: unsigned_ucast_eq take_bit_nat_eq_self)
    have sum: "unat addr + unat page_size \<le> nat (size_m m - 66)"
      using a uint_nat [of addr] uint_nat [of page_size] by linarith
    have half: "2 * ((unat page_size + 1) div 2) \<le> unat page_size + 1"
      by simp
    have c1: "unat (ucast addr :: uint16) + 2 * ((unat page_size + 1) div 2) \<le> 65535"
      using ua sum half s2 by linarith
    have c2: "unat (ucast addr :: uint16) + 2 * ((unat page_size + 1) div 2) \<le> length (buf m)"
      using ua sum half s1 len by linarith
    have "picoboot_paged_write m page_size addr num_bytes w =
       with_mem m (page_steps (buf m) page_size (ucast addr) addr w (\<lambda>w2.
         Some (Return (sint num_bytes), w2)))"
      using fl n1 n2 assms(3) by (simp add: picoboot_paged_write_def BOOTLOADER_SIZE_def Let_def)
    then show ?thesis using c1 c2 by blast
  qed
qed

lemma paged_write_zero_shape:
  assumes "flash_image m"
  shows "picoboot_paged_write m page_size 0 num_bytes w = Some (Exit BootloaderWrite, w, m) \<or>
     picoboot_paged_write m page_size 0 num_bytes w = Some (Exit NoResetVector, w, m) \<or>
     66 < size_m m \<and> le16 (buf m) 0 div 4096 = 12"
proof -
  have fl: "desc m = ''flash''" and s1: "66 \<le> size_m m" and s2: "size_m m \<le> 65536"
    and len: "int (length (buf m)) = size_m m"
    using assms(1) by (simp_all add: flash_image_def)
  let ?v = "ucast (word_of_int (size_m m - 66) :: uint16) :: uint"
  let ?a = "ucast (buf m ! 0) OR push_bit 8 (ucast (buf m ! 1)) :: uint16"
  have v: "uint ?v = size_m m - 66"
    using s1 s2 by (rule uint_vrst_exact)
  show ?thesis
  proof (cases "66 < size_m m")
    case True
    show ?thesis
    proof (cases "le16 (buf m) 0 div 4096 = 12")
      case False
      have "uint ?v \<noteq> 0" using v True by simp
      then have nz: "?v \<noteq> 0" by (simp add: uint_0_iff)
      have l2: "\<not> length (buf m) < 2" using len True by linarith
      have "unat ?a = le16 (buf m) 0"
        by (simp add: unat_le16_word le16_def)
      then have a: "?a AND 0xF000 \<noteq> 0xC000"
        using False by (simp only: rjmp_test) simp
      have "picoboot_paged_write m page_size 0 num_bytes w = Some (Exit NoResetVector, w, m)"
        using fl nz l2 a by (simp add: picoboot_paged_write_def BOOTLOADER_SIZE_def Let_def)
      then show ?thesis by blast
    next
      case True
      then show ?thesis using \<open>66 < size_m m\<close> by blast
    qed
  next
    case False
    then have "uint ?v = 0" using v s1 by simp
    then have "?v = 0" by (simp add: uint_0_iff)
    then have "picoboot_paged_write m page_size 0 num_bytes w = Some (Exit BootloaderWrite, w, m)"
      using fl by (simp add: picoboot_paged_write_def BOOTLOADER_SIZE_def Let_def)
    then show ?thesis by blast
  qed
qed

lemma final_return_extends:
  assumes "extends w0 (Return 0) w'"
  shows "\<exists>out w2. Some (Return r, w') = Some (out, w2) \<and> extends w0 out w2"
  using extends_relabel [OF assms, of "Return r"] by simp

lemma with_mem_extends:
  assumes "\<exists>out w2. x = Some (out, w2) \<and> extends w out w2"
  shows "\<exists>out w' m'. with_mem m x = Some (out, w', m') \<and> extends w out w'"
  using assms by (auto simp: with_mem_def)

lemma paged_write_extends:
  assumes "flash_image m" and "uint page_size \<le> size_m m - 66"
  shows "\<exists>out w' m'. picoboot_paged_write m page_size addr num_bytes w = Some (out, w', m') \<and>
     extends w out w'"
proof (cases "addr = 0")
  case False
  from paged_write_nonzero_shape [OF assms False, of num_bytes w]
  consider (stop) out where "picoboot_paged_write m page_size addr num_bytes w = Some (out, w, m)"
      and "out \<noteq> Exit ProtocolError"
    | (page) "unat (ucast addr :: uint16) + 2 * ((unat page_size + 1) div 2) \<le> 65535"
      and "unat (ucast addr :: uint16) + 2 * ((unat page_size + 1) div 2) \<le> length (buf m)"
      and "picoboot_paged_write m page_size addr num_bytes w =
       with_mem m (page_steps (buf m) page_size (ucast addr) addr w (\<lambda>w2.
         Some (Return (sint num_bytes), w2)))"
    by fastforce
  then show ?thesis
  proof cases
    case stop
    then show ?thesis using extends_refl [of out w] by simp
  next
    case page
    have "\<exists>out w2. page_steps (buf m) page_size (ucast addr) addr w (\<lambda>w2.
         Some (Return (sint num_bytes), w2)) = Some (out, w2) \<and> extends w out w2"
      using page(1,2) extends_refl [of "Return 0" w]
      by (rule page_steps_extends) (simp, rule final_return_extends)
    then show ?thesis unfolding page(3) by (rule with_mem_extends)
  qed
next
  case True
  from paged_write_zero_shape [OF assms(1), of page_size num_bytes w]
  consider (stop) out where "picoboot_paged_write m page_size 0 num_bytes w = Some (out, w, m)"
      and "out \<noteq> Exit ProtocolError"
    | (pages) "66 < size_m m" and "le16 (buf m) 0 div 4096 = 12"
    by fastforce
  then show ?thesis
  proof cases
    case stop
    then show ?thesis using extends_refl [of out w] True by simp
  next
    case pages
    let ?b = "relocated (buf m) (nat (size_m m - 66))"
    let ?vp = "ucast (ucast (word_of_int (size_m m - 66) :: uint16) - page_size + 2 :: uint) :: uint16"
    note c = zero_fill_conditions [OF assms]
    have inner: "\<exists>out w2. page_steps ?b page_size (ucast (0 :: uint)) 0 w1 (\<lambda>w2.
        Some (Return (sint num_bytes), w2)) = Some (out, w2) \<and> extends w out w2"
      if "extends w (Return 0) w1" for w1
      using c(3,4) that by (rule page_steps_extends) (rule final_return_extends)
    have "\<exists>out w2. page_steps ?b page_size ?vp (ucast ?vp) w (\<lambda>w1.
        page_steps ?b page_size (ucast (0 :: uint)) 0 w1 (\<lambda>w2.
        Some (Return (sint num_bytes), w2))) = Some (out, w2) \<and> extends w out w2"
      using c(1,2) _ inner by (rule page_steps_extends) (simp add: extends_refl)
    then show ?thesis
      unfolding True paged_write_zero [OF assms(1) pages(1) assms(2) pages(2)]
      by (rule with_mem_extends)
  qed
qed

lemma bad_stops_split:
  assumes "bad_stops out evs" and "evs = pre @ e # post" and "bad_byte e"
  shows "post = [] \<and> out = Exit ProtocolError"
proof -
  have e: "e \<in> set evs" using assms(2) by simp
  then have o: "out = Exit ProtocolError"
    using assms(1,3) by (auto simp: bad_stops_def split: if_splits)
  then obtain pre' e' where s: "evs = pre' @ [e']" and c: "\<forall>x\<in>set pre'. \<not> bad_byte x"
    using assms(1) by (auto simp: bad_stops_def)
  have "post = []"
  proof (rule ccontr)
    assume "post \<noteq> []"
    then have "butlast evs = pre @ e # butlast post"
      using assms(2) by (simp add: butlast_append)
    then have "e \<in> set (butlast evs)" by simp
    then have "e \<in> set pre'" using s by simp
    then show False using c assms(3) by blast
  qed
  then show ?thesis using o by simp
qed

text \<open>
  C6, as the code has it. In a call of \<^verbatim>\<open>picoboot_buffered_send\<close> a read that times
  out is the last transport event of the call and the call returns -1: the flush is
  aborted and the remaining acknowledgements of the window are not read. A read that
  yields a byte other than 0x00 is the last transport event too, and the call ends in
  the protocol-error exit. In a paged write to a flash image, a read of a byte other
  than 0x00 is the last transport event of the whole call, which ends in the
  protocol-error exit: no frame follows, so neither erase nor write.
\<close>

theorem failed_ack_stops_flush_and_session:
  assumes "flash_image m" and "uint page_size \<le> size_m m - 66"
  shows "(\<exists>evs. trace (snd (picoboot_buffered_send f w0)) = trace w0 @ evs \<and>
       (\<forall>pre e post. evs = pre @ e # post \<and> timed_out e \<longrightarrow>
          post = [] \<and> fst (picoboot_buffered_send f w0) = Return (- 1)) \<and>
       (\<forall>pre e post. evs = pre @ e # post \<and> bad_byte e \<longrightarrow>
          post = [] \<and> fst (picoboot_buffered_send f w0) = Exit ProtocolError)) \<and>
     (\<exists>out w' m' evs. picoboot_paged_write m page_size addr num_bytes w = Some (out, w', m') \<and>
       trace w' = trace w @ evs \<and>
       (\<forall>pre e post. evs = pre @ e # post \<and> bad_byte e \<longrightarrow>
          post = [] \<and> out = Exit ProtocolError))"
proof
  from buffered_send_flush_stops [of f w0] obtain evs where
    t: "trace (snd (picoboot_buffered_send f w0)) = trace w0 @ evs"
    and fs: "flush_stops (fst (picoboot_buffered_send f w0)) evs" by blast
  show "\<exists>evs. trace (snd (picoboot_buffered_send f w0)) = trace w0 @ evs \<and>
       (\<forall>pre e post. evs = pre @ e # post \<and> timed_out e \<longrightarrow>
          post = [] \<and> fst (picoboot_buffered_send f w0) = Return (- 1)) \<and>
       (\<forall>pre e post. evs = pre @ e # post \<and> bad_byte e \<longrightarrow>
          post = [] \<and> fst (picoboot_buffered_send f w0) = Exit ProtocolError)"
    using t flush_stops_split [OF fs] by blast
next
  from paged_write_extends [OF assms, of addr num_bytes w] obtain out w' m' evs where
    r: "picoboot_paged_write m page_size addr num_bytes w = Some (out, w', m')"
    and t: "trace w' = trace w @ evs" and b: "bad_stops out evs"
    unfolding extends_def by blast
  show "\<exists>out w' m' evs. picoboot_paged_write m page_size addr num_bytes w = Some (out, w', m') \<and>
       trace w' = trace w @ evs \<and>
       (\<forall>pre e post. evs = pre @ e # post \<and> bad_byte e \<longrightarrow>
          post = [] \<and> out = Exit ProtocolError)"
    using r t bad_stops_split [OF b] by blast
qed

theorem failed_ack_stops_flush_and_session_witness:
  "flash_image tiny_image \<and> uint (16 :: uint) \<le> size_m tiny_image - 66 \<and>
   ((\<exists>evs. trace (snd (picoboot_buffered_send (make_frame 7 0 0) seven_pending)) =
         trace seven_pending @ evs \<and>
       (\<forall>pre e post. evs = pre @ e # post \<and> timed_out e \<longrightarrow>
          post = [] \<and> fst (picoboot_buffered_send (make_frame 7 0 0) seven_pending) = Return (- 1)) \<and>
       (\<forall>pre e post. evs = pre @ e # post \<and> bad_byte e \<longrightarrow>
          post = [] \<and>
          fst (picoboot_buffered_send (make_frame 7 0 0) seven_pending) = Exit ProtocolError)) \<and>
    (\<exists>out w' m' evs. picoboot_paged_write tiny_image 16 16 16 nak_world = Some (out, w', m') \<and>
       trace w' = trace nak_world @ evs \<and>
       (\<forall>pre e post. evs = pre @ e # post \<and> bad_byte e \<longrightarrow>
          post = [] \<and> out = Exit ProtocolError)))"
proof -
  have h1: "flash_image tiny_image"
    by (simp add: flash_image_def tiny_image_def)
  have h2: "uint (16 :: uint) \<le> size_m tiny_image - 66"
    by (simp add: tiny_image_def)
  show ?thesis
    using h1 h2 failed_ack_stops_flush_and_session [OF h1 h2] by blast
qed

text \<open>
  C6, as the claim has it, fails: when the device answers the first acknowledgement of
  a flush with 0xFF, the paged write does not return a negative result; the session
  exits. The flush itself, with one good acknowledgement and then silence, returns -1
  after the second read.
\<close>

theorem bad_ack_exits_without_result_counterexample:
  "map_option fst (picoboot_paged_write tiny_image 16 16 16 nak_world) =
     Some (Exit ProtocolError)"
  by code_simp

text \<open>
  Not part of C6 as amended: \<^verbatim>\<open>fill_page_buf\<close> drops the -1 of a flush that timed
  out, so the paged write goes on to erase and write the page and returns the byte
  count.
\<close>

lemma timeout_in_fill_is_dropped:
  "map_option fst (picoboot_paged_write tiny_image 16 16 16 late_world) = Some (Return 16)"
  by code_simp

lemma timeout_aborts_flush:
  "picoboot_buffered_send (make_frame 7 0 0) seven_pending =
     (Return (- 1),
      \<lparr>trace = [Sent (concat (map wire eight_frames)), Recvd (RecvByte 0), Recvd RecvFail],
       incoming = [], window = []\<rparr>)"
  by code_simp

end
